theory Spec2Isabelle
  imports Main
begin

section \<open>The scan manager of bbot: data model\<close>

text \<open>
  The development embeds \<open>bbot/scanner/manager.py\<close> (class \<open>ScanManager\<close>).
  Events are mutable Python objects that are shared between the manager, the worker
  pool and the modules, so they live in an explicit store: a reference is a natural
  number and the store maps references to event records.

  The exception classes that the handlers of the manager tell apart. Everything that
  derives from Python's \<open>Exception\<close> and is not named by a handler is
  \<open>OtherException\<close>; \<open>KeyboardInterrupt\<close> is the one class outside \<open>Exception\<close>
  that the handlers name.
\<close>

datatype exn =
    KeyboardInterrupt
  | ScanCancelledError
  | BrokenPipeError
  | ValidationError
  | RuntimeError
  | OtherException

type_synonym ref = nat

text \<open>
  \<open>event.module\<close>, the producer of an event. The manager reads it through
  \<open>str(event.module)\<close>, \<open>getattr(event.module, "_type", "")\<close> and
  \<open>getattr(event.module, "suppress_dupes", True)\<close>; an attribute that the object
  does not have is \<open>None\<close> here, and the default of \<open>getattr\<close> is applied where
  the source applies it.
\<close>

record producer =
  mod_name :: string
  mod_type :: "string option"
  suppress_dupes :: "bool option"

text \<open>
  The event object, with the attributes the manager reads or writes. \<open>resolved\<close> is
  the state of the completion signal \<open>event._resolved\<close>, a \<open>threading.Event\<close>:
  \<open>set()\<close> makes it true, nothing in the manager clears it, and a second \<open>set()\<close>
  changes nothing. \<open>released\<close> counts the calls of \<open>event.release_semaphore()\<close>.
  \<open>host\<close> is \<open>None\<close> when \<open>event.host\<close> is falsy. The class of the event is not
  part of the given sources: an assignment to an attribute is taken as a plain write, and
  \<open>event.source\<close> as the reference of the parent object (\<open>None\<close> when there is none).
\<close>

record event =
  etype :: string
  data :: string
  module :: producer
  source :: "ref option"
  source_id :: string
  dummy :: bool
  force_output :: bool
  host :: "string option"
  tags :: "string set"
  scope_distance :: int
  resolved_hosts :: "string set"
  resolved :: bool
  released :: nat

text \<open>
  Python values that the manager hashes. Modelled from the spec: \<open>Event.__hash__\<close> is
  not part of the given sources; the spec gives the identity of an event as its type and
  value, so an event enters a hash as \<open>PyEvent type value\<close>. The function that stands
  for Python's \<open>hash\<close> is a parameter \<open>H\<close> of the definitions below: nothing is assumed
  of it unless a theorem says so.
\<close>

datatype pyval =
    PyEvent string string
  | PyStr string
  | PyTuple "pyval list"

datatype loglevel = Warning | Error | Critical

text \<open>What a module's inbound queue receives: an event or the string \<open>"FINISHED"\<close>.\<close>

datatype item = ItemEvent ref | ItemStr string

text \<open>
  The options of \<open>emit_event\<close>. A callback of the caller is modelled by its outcome on
  the event it is given: \<open>abort_if\<close> returns a truth value or raises,
  \<open>on_success_callback\<close> returns or raises; a callback does not write to the manager
  or to the events. \<open>on_success_callback\<close> goes through \<open>catch\<close>, which reads the
  attribute \<open>__qualname__\<close> of what it is to call: functions and methods have it, a
  \<open>functools.partial\<close> object or an instance with \<open>__call__\<close> does not. So this
  option is a pair: whether the object has the attribute, and its outcome. \<open>None\<close> is
  an option that was not passed. Further positional and keyword arguments, which
  \<open>emit_event\<close> would hand on to \<open>make_event\<close>, are not modelled.
\<close>

record emit_opts =
  quick :: bool
  abort_if :: "(event \<Rightarrow> exn + bool) option"
  on_success_callback :: "(bool \<times> (event \<Rightarrow> exn option)) option"

text \<open>
  The state of the manager together with what its collaborators have been told so far.
  \<open>events_accepted\<close>, \<open>events_distributed\<close>, \<open>event_queue\<close> and
  \<open>queued_event_types\<close> are the attributes of \<open>ScanManager\<close>; \<open>submitted\<close> holds the
  tasks given to the event thread pool; the other fields record, in order, the calls
  made to the statistics sink, the word cloud, the modules, the logger (levels warning
  and above), \<open>set_error_state()\<close> of the modules, the events the driver loop
  yields, \<open>sleep\<close> and \<open>scan.stop()\<close>. \<open>clock\<close> counts the reads of
  \<open>scan.stopping\<close> and \<open>polls\<close> the reads of \<open>scan.status_detailed\<close>: both
  values belong to other threads, and the environment below gives what each read sees.
\<close>

record 'h state =
  heap :: "ref \<Rightarrow> event"
  next_ref :: ref
  events_accepted :: "'h set"
  events_distributed :: "'h set"
  event_queue :: "ref list"
  queued_event_types :: "string \<rightharpoonup> nat"
  submitted :: "(ref \<times> emit_opts) list"
  stats_emitted :: "ref list"
  stats_produced :: "ref list"
  stats_function_called :: nat
  absorbed :: "ref list"
  delivered :: "(string \<times> item) list"
  reported :: "string list"
  logged :: "loglevel list"
  error_state_calls :: "string list"
  yielded :: "ref list"
  sleeps :: nat
  stop_calls :: nat
  status :: string
  clock :: nat
  polls :: nat

section \<open>Duplicate detection\<close>

text \<open>
  \<open>hash_event\<close>: the hash of \<open>(event, str(event.module), event.source_id)\<close> when the
  producer's \<open>_type\<close> is \<open>"DNS"\<close>, of \<open>(event, str(event.module))\<close> otherwise.
\<close>

definition hash_event :: "(pyval \<Rightarrow> 'h) \<Rightarrow> event \<Rightarrow> 'h" where
  "hash_event H e =
     (let module_type = (case mod_type (module e) of None \<Rightarrow> [] | Some t \<Rightarrow> t) in
      if module_type = ''DNS''
      then H (PyTuple [PyEvent (etype e) (data e), PyStr (mod_name (module e)), PyStr (source_id e)])
      else H (PyTuple [PyEvent (etype e) (data e), PyStr (mod_name (module e))]))"

text \<open>
  \<open>is_duplicate_event(event, add)\<close> returns the verdict and the state, in which the
  hash has been added to the accepted ledger when \<open>add\<close> is set.
\<close>

definition is_duplicate_event :: "(pyval \<Rightarrow> 'h) \<Rightarrow> 'h state \<Rightarrow> ref \<Rightarrow> bool \<Rightarrow> bool \<times> 'h state" where
  "is_duplicate_event H s r add =
     (let event = heap s r;
          event_hash = hash_event H event;
          suppress = (case suppress_dupes (module event) of None \<Rightarrow> True | Some b \<Rightarrow> b);
          duplicate_event = (suppress \<and> event_hash \<in> events_accepted s);
          s' = (if add then s\<lparr>events_accepted := insert event_hash (events_accepted s)\<rparr> else s)
      in (duplicate_event \<and> \<not> force_output event, s'))"

definition accept_event :: "(pyval \<Rightarrow> 'h) \<Rightarrow> 'h state \<Rightarrow> ref \<Rightarrow> bool \<times> 'h state" where
  "accept_event H s r =
     (case is_duplicate_event H s r True of
        (dup, s') \<Rightarrow> if dup then (False, s') else (True, s'))"


section \<open>The scan context and the collaborators\<close>

text \<open>
  A registered module (a value of \<open>scan.modules\<close>). \<open>filter_event\<close> is the verdict of
  \<open>mod._filter_event(event, precheck_only=True)\<close>; \<open>queue_event_raises\<close> and
  \<open>report_raises\<close> say whether \<open>mod.queue_event\<close> and \<open>mod.report\<close> raise, and what.
\<close>

record bmodule =
  mname :: string
  mtype :: string
  accept_dupes :: bool
  emit_graph_trail :: bool
  filter_event :: "event \<Rightarrow> bool"
  queue_event_raises :: "exn option"
  report_raises :: "exn option"

text \<open>
  \<open>m.status\<close> of a module, and one reading of \<open>scan.status_detailed\<close> and of the
  modules. The counts are lengths of queues and numbers of pending tasks, hence natural
  numbers. \<open>module_errored\<close> is the test
  \<open>mod.errored and mod.event_queue not in [None, False]\<close>.
\<close>

record mod_status =
  running :: bool
  errored :: bool
  incoming :: nat
  outgoing :: nat
  tasks_total :: nat

record snapshot =
  queued_events :: "(string \<times> nat) list"
  queued_tasks :: "(string \<times> nat) list"
  module_status :: "string \<Rightarrow> mod_status"
  module_errored :: "string \<Rightarrow> bool"

text \<open>
  The answer of the DNS collaborator \<open>scan.helpers.dns.resolve_event(event)\<close>, which is
  not part of the given sources: the five results of the call, or the exception it
  raises, and whether the call sets the completion signal of the event.
\<close>

record dns_result =
  answer_children :: "(string \<times> string) list"
  dns_tags :: "string set"
  event_whitelisted_dns :: bool
  event_blacklisted_dns :: bool
  dns_resolved_hosts :: "string set"

record dns_answer =
  dns_outcome :: "exn + dns_result"
  dns_sets_resolved :: bool

text \<open>
  The scan context: configuration, the registered modules in the order of
  \<open>scan.modules.values()\<close>, and the collaborators as functions. \<open>make_event\<close> builds
  a new event from a value, a type, a module and its source (the reference and the
  object), or raises;
  \<open>make_event_same\<close> is \<open>make_event\<close> applied to an event object, which gives the
  object back or raises. \<open>stopping_reads\<close> and \<open>detailed_reads\<close> give what the
  successive reads of \<open>scan.stopping\<close> and \<open>scan.status_detailed\<close> see.
\<close>

record 'h env =
  py_hash :: "pyval \<Rightarrow> 'h"
  dns_resolution :: bool
  has_blacklist :: bool
  scope_search_distance :: int
  scope_report_distance :: int
  dns_search_distance :: int
  modules :: "bmodule list"
  resolve_event :: "event \<Rightarrow> dns_answer"
  whitelisted :: "event \<Rightarrow> bool"
  blacklisted :: "event \<Rightarrow> bool"
  make_event :: "string \<Rightarrow> string \<Rightarrow> producer \<Rightarrow> ref \<Rightarrow> event \<Rightarrow> exn + event"
  make_event_same :: "event \<Rightarrow> exn option"
  make_dummy_module :: "string \<Rightarrow> string \<Rightarrow> producer"
  get_dummy_module :: "string \<Rightarrow> producer"
  submit_task_raises :: "exn option"
  on_start_raises :: "exn option"
  stopping_reads :: "nat \<Rightarrow> bool"
  detailed_reads :: "nat \<Rightarrow> snapshot"

section \<open>The completion detector\<close>

text \<open>
  One pass of \<open>modules_status\<close> reads the scan and the modules once. The three loops
  that clear \<open>finished\<close> and the loop that calls \<open>set_error_state\<close> (whose exceptions
  are suppressed) are folds. The loop sleeps between two passes as long as \<open>finished\<close>
  holds and passes remain. The result is \<open>status["finished"]\<close>, the last reading, and
  the state; the other entries of the dictionary that the source returns are not needed
  here. The branch taken for \<open>_log\<close> only formats and prints what was read.
\<close>

function status_loop ::
  "'h env \<Rightarrow> int \<Rightarrow> bool \<Rightarrow> snapshot option \<Rightarrow> 'h state \<Rightarrow> bool \<times> snapshot option \<times> 'h state" where
  "status_loop env passes finished reading s =
     (if passes > 0 then
        (let snap = detailed_reads env (polls s);
             s1 = s\<lparr>polls := polls s + 1\<rparr>;
             finished1 = fold (\<lambda>num_events fin. if num_events > 0 then False else fin)
                           (map snd (queued_events snap)) finished;
             finished2 = fold (\<lambda>num_tasks fin. if num_tasks > 0 then False else fin)
                           (map snd (queued_tasks snap)) finished1;
             finished3 = fold (\<lambda>m fin. if running (module_status snap (mname m)) then False else fin)
                           (modules env) finished2;
             s2 = fold (\<lambda>m st. if module_errored snap (mname m)
                                 then st\<lparr>error_state_calls := error_state_calls st @ [mname m]\<rparr>
                                 else st)
                    (modules env) s1;
             passes' = passes - 1
         in if finished3 \<and> passes' > 0
            then status_loop env passes' finished3 (Some snap) (s2\<lparr>sleeps := sleeps s2 + 1\<rparr>)
            else (finished3, Some snap, s2))
      else (finished, reading, s))"
  by pat_completeness auto
termination
  by (relation "measure (\<lambda>(env, passes, finished, reading, s). nat passes)") auto

declare status_loop.simps [simp del]

definition modules_status ::
  "'h env \<Rightarrow> bool \<Rightarrow> int option \<Rightarrow> 'h state \<Rightarrow> bool \<times> snapshot option \<times> 'h state" where
  "modules_status env log passes s =
     (let passes' = (case passes of None \<Rightarrow> 5 | Some p \<Rightarrow> max 1 p)
      in status_loop env passes' True None s)"

section \<open>The catch wrapper\<close>

text \<open>
  \<open>catch(callback, _force, _on_finish_callback)\<close>. The callback is given by
  \<open>has_qualname\<close>, whether the object has the attribute \<open>__qualname__\<close>, and by a
  function of the state that returns the exception it raised, if any, with the state it
  left, or does not return at all (\<open>None\<close>). The source builds \<open>callback_name\<close> from
  \<open>callback.__qualname__\<close> before the \<open>try\<close> statement: without the attribute an
  \<open>AttributeError\<close> leaves the wrapper there, before \<open>scan.stopping\<close> is read, and
  neither the callback nor the \<open>finally\<close> clause runs. Otherwise the handlers are tried
  in the order of the source and the \<open>finally\<close> clause reports to the statistics sink.
  An \<open>_on_finish_callback\<close> is a pair as well: whether it has \<open>__qualname__\<close>, which
  the handler of its exceptions reads for the log entry, and its outcome.
\<close>

definition catch ::
  "'h env \<Rightarrow> bool \<Rightarrow> ('h state \<Rightarrow> (exn option \<times> 'h state) option) \<Rightarrow> bool
     \<Rightarrow> (bool \<times> exn option) option \<Rightarrow> 'h state \<Rightarrow> (exn option \<times> 'h state) option" where
  "catch env has_qualname callback force on_finish_callback s =
     (if \<not> has_qualname then Some (Some OtherException, s)
      else
        (let stopping = stopping_reads env (clock s);
             s0 = s\<lparr>clock := clock s + 1\<rparr>;
             ran = (if \<not> stopping \<or> force then callback s0 else Some (None, s0))
         in case ran of
              None \<Rightarrow> None
            | Some (exc, s1) \<Rightarrow>
                (let s2 = (case exc of
                             None \<Rightarrow> s1
                           | Some ScanCancelledError \<Rightarrow> s1
                           | Some BrokenPipeError \<Rightarrow> s1
                           | Some KeyboardInterrupt \<Rightarrow> s1\<lparr>stop_calls := stop_calls s1 + 1\<rparr>
                           | Some _ \<Rightarrow> s1\<lparr>logged := logged s1 @ [Error]\<rparr>);
                     s3 = s2\<lparr>stats_function_called := stats_function_called s2 + 1\<rparr>
                 in case on_finish_callback of
                      None \<Rightarrow> Some (None, s3)
                    | Some (finish_has_qualname, None) \<Rightarrow> Some (None, s3)
                    | Some (finish_has_qualname, Some KeyboardInterrupt) \<Rightarrow> Some (Some KeyboardInterrupt, s3)
                    | Some (finish_has_qualname, Some _) \<Rightarrow>
                        if finish_has_qualname then Some (None, s3\<lparr>logged := logged s3 @ [Error]\<rparr>)
                        else Some (Some OtherException, s3))))"

section \<open>The dispatcher\<close>

text \<open>
  The loop of \<open>distribute_event\<close> over the modules, with its local variable
  \<open>stats_recorded\<close>. A call of \<open>mod.queue_event\<close> that raises ends the loop.
\<close>

fun distribute_loop ::
  "'h env \<Rightarrow> ref \<Rightarrow> bool \<Rightarrow> bmodule list \<Rightarrow> bool \<Rightarrow> 'h state \<Rightarrow> exn option \<times> 'h state" where
  "distribute_loop env r dup [] stats_recorded s = (None, s)"
| "distribute_loop env r dup (m # ms) stats_recorded s =
     (let event = heap s r in
      if \<not> dup \<or> accept_dupes m then
        (let event_within_scope_distance =
               (-1 < scope_distance event \<and> scope_distance event \<le> scope_search_distance env);
             event_within_report_distance =
               (-1 < scope_distance event \<and> scope_distance event \<le> scope_report_distance env)
         in if mtype m = ''output'' then
              (if event_within_report_distance \<or> (force_output event \<and> emit_graph_trail m) then
                 (case queue_event_raises m of
                    Some x \<Rightarrow> (Some x, s)
                  | None \<Rightarrow>
                      (let s1 = s\<lparr>delivered := delivered s @ [(mname m, ItemEvent r)]\<rparr> in
                       if \<not> stats_recorded
                       then distribute_loop env r dup ms True
                              (s1\<lparr>stats_produced := stats_produced s1 @ [r]\<rparr>)
                       else distribute_loop env r dup ms stats_recorded s1))
               else distribute_loop env r dup ms stats_recorded s)
            else
              (if event_within_scope_distance then
                 (case queue_event_raises m of
                    Some x \<Rightarrow> (Some x, s)
                  | None \<Rightarrow>
                      distribute_loop env r dup ms stats_recorded
                        (s\<lparr>delivered := delivered s @ [(mname m, ItemEvent r)]\<rparr>))
               else distribute_loop env r dup ms stats_recorded s))
      else distribute_loop env r dup ms stats_recorded s)"

definition distribute_event :: "'h env \<Rightarrow> 'h state \<Rightarrow> ref \<Rightarrow> exn option \<times> 'h state" where
  "distribute_event env s r =
     (let event = heap s r;
          event_hash = py_hash env (PyEvent (etype event) (data event));
          dup = (event_hash \<in> events_distributed s);
          s1 = (if dup then s
                else s\<lparr>events_distributed := insert event_hash (events_distributed s)\<rparr>);
          s2 = (if \<not> dup \<and> -1 < scope_distance event \<and> scope_distance event < 1
                then s1\<lparr>absorbed := absorbed s1 @ [r]\<rparr> else s1)
      in distribute_loop env r dup (modules env) False s2)"

section \<open>The driver loop\<close>

text \<open>
  What one iteration of \<open>loop_until_finished\<close> meets from outside: a value another
  thread has assigned to \<open>scan.status\<close> since the last iteration, whether the status log
  is due, the events waiting in the module \<open>"python"\<close> (\<open>None\<close> when no such module is
  registered), and the events that pipeline runs have put on the central queue by the
  time the \<open>get\<close> of this iteration gives up.
\<close>

record tick =
  ext_status :: "string option"
  log_due :: bool
  python_events :: "ref list option"
  arrivals :: "ref list"

text \<open>Emptying the queue with \<open>get_nowait\<close> until it raises \<open>queue.Empty\<close>.\<close>

fun drain_queue :: "ref list \<Rightarrow> ref list" where
  "drain_queue [] = []"
| "drain_queue (x # q) = drain_queue q"

text \<open>The loop that sends \<open>"FINISHED"\<close> to every module.\<close>

fun broadcast_finished :: "bmodule list \<Rightarrow> 'h state \<Rightarrow> exn option \<times> 'h state" where
  "broadcast_finished [] s = (None, s)"
| "broadcast_finished (m # ms) s =
     (case queue_event_raises m of
        Some x \<Rightarrow> (Some x, s)
      | None \<Rightarrow> broadcast_finished ms (s\<lparr>delivered := delivered s @ [(mname m, ItemStr ''FINISHED'')]\<rparr>))"

text \<open>
  How one iteration of the \<open>while 1\<close> loop ends: with \<open>break\<close>, with an exception, or
  by going round again with the new values of \<open>counter\<close> and \<open>event_counter\<close>.
\<close>

datatype 'a ctl = Break 'a | Raised exn 'a | Continue nat nat 'a

text \<open>
  The handler of \<open>queue.Empty\<close>: the completion detector is asked, and the two tests of
  \<open>finished\<close> follow each other as in the source.
\<close>

definition on_queue_empty :: "'h env \<Rightarrow> nat \<Rightarrow> nat \<Rightarrow> 'h state \<Rightarrow> 'h state ctl" where
  "on_queue_empty env counter event_counter s =
     (case modules_status env False None s of
        (finished, reading, s5) \<Rightarrow>
          if finished then Break s5
          else if finished then
            (if event_counter > 0 then
               (case broadcast_finished (modules env) (s5\<lparr>status := ''FINISHING''\<rparr>) of
                  (Some x, s6) \<Rightarrow> Raised x s6
                | (None, s6) \<Rightarrow> Continue (counter + 1) 0 s6)
             else Break s5)
          else Continue (counter + 1) event_counter s5)"

text \<open>
  The body of the loop, for one iteration, in three parts: the assignment another thread
  made to \<open>scan.status\<close>; what happens between the test for \<open>"ABORTING"\<close> and
  the \<open>get\<close> on the queue (the status log when it is due, the events of the module
  \<open>"python"\<close>, the arrivals); and the rest.
\<close>

definition apply_ext_status :: "tick \<Rightarrow> 'h state \<Rightarrow> 'h state" where
  "apply_ext_status t s = (case ext_status t of None \<Rightarrow> s | Some v \<Rightarrow> s\<lparr>status := v\<rparr>)"

definition before_get :: "'h env \<Rightarrow> tick \<Rightarrow> 'h state \<Rightarrow> 'h state" where
  "before_get env t s1 =
     (let s2 = (if log_due t then snd (snd (modules_status env True (Some 1) s1)) else s1);
          s3 = (case python_events t of None \<Rightarrow> s2 | Some events \<Rightarrow> s2\<lparr>yielded := yielded s2 @ events\<rparr>)
      in s3\<lparr>event_queue := event_queue s3 @ arrivals t\<rparr>)"

definition driver_step :: "'h env \<Rightarrow> tick \<Rightarrow> nat \<Rightarrow> nat \<Rightarrow> 'h state \<Rightarrow> 'h state ctl" where
  "driver_step env t counter event_counter s =
     (let s1 = apply_ext_status t s in
      if status s1 = ''ABORTING'' then Break (s1\<lparr>event_queue := drain_queue (event_queue s1)\<rparr>)
      else
        (let s4 = before_get env t s1
         in case event_queue s4 of
              [] \<Rightarrow> on_queue_empty env counter event_counter s4
            | event # q \<Rightarrow>
                (case distribute_event env (s4\<lparr>event_queue := q\<rparr>) event of
                   (Some x, s5) \<Rightarrow> Raised x s5
                 | (None, s5) \<Rightarrow> Continue counter (event_counter + 1) s5)))"

text \<open>
  The loop runs as long as there are iterations to meet, and \<open>None\<close> is a loop that has
  not ended within them. The result of a loop that ended is the exception that left it,
  if any, and the state.
\<close>

fun driver_loop ::
  "'h env \<Rightarrow> tick list \<Rightarrow> nat \<Rightarrow> nat \<Rightarrow> 'h state \<Rightarrow> (exn option \<times> 'h state) option" where
  "driver_loop env [] counter event_counter s = None"
| "driver_loop env (t # ts) counter event_counter s =
     (case driver_step env t counter event_counter s of
        Break s' \<Rightarrow> Some (None, s')
      | Raised x s' \<Rightarrow> Some (Some x, s')
      | Continue counter' event_counter' s' \<Rightarrow> driver_loop env ts counter' event_counter' s')"

text \<open>
  The counters and the state with which the loop enters its next iteration once the given
  iterations have gone round; \<open>None\<close> when one of them left the loop.
\<close>

fun driver_iterations ::
  "'h env \<Rightarrow> tick list \<Rightarrow> nat \<Rightarrow> nat \<Rightarrow> 'h state \<Rightarrow> (nat \<times> nat \<times> 'h state) option" where
  "driver_iterations env [] counter event_counter s = Some (counter, event_counter, s)"
| "driver_iterations env (t # ts) counter event_counter s =
     (case driver_step env t counter event_counter s of
        Continue counter' event_counter' s' \<Rightarrow> driver_iterations env ts counter' event_counter' s'
      | Break s' \<Rightarrow> None
      | Raised x s' \<Rightarrow> None)"

text \<open>
  The \<open>finally\<close> clause: \<open>catch(mod.report, _force=True)\<close> for every module. A report
  hook is recorded in \<open>reported\<close> when it is called; \<open>mod.report\<close> is a bound method,
  which has \<open>__qualname__\<close>.
\<close>

fun run_reports :: "'h env \<Rightarrow> bmodule list \<Rightarrow> 'h state \<Rightarrow> (exn option \<times> 'h state) option" where
  "run_reports env [] s = Some (None, s)"
| "run_reports env (m # ms) s =
     (case catch env True (\<lambda>st. Some (report_raises m, st\<lparr>reported := reported st @ [mname m]\<rparr>)) True None s of
        None \<Rightarrow> None
      | Some (Some x, s1) \<Rightarrow> Some (Some x, s1)
      | Some (None, s1) \<Rightarrow> run_reports env ms s1)"

text \<open>
  \<open>loop_until_finished\<close>: the start hook and the loop inside \<open>try\<close>, the two handlers,
  and the reports. An exception that no handler takes would leave after the reports; the
  two handlers take every exception of the model. The source is a generator: the model
  is a run in which the caller takes every event that is yielded, and the events are
  recorded in \<open>yielded\<close>.
\<close>

definition loop_until_finished ::
  "'h env \<Rightarrow> tick list \<Rightarrow> 'h state \<Rightarrow> (exn option \<times> 'h state) option" where
  "loop_until_finished env ticks s =
     (case (case on_start_raises env of
              Some x \<Rightarrow> Some (Some x, s)
            | None \<Rightarrow> driver_loop env ticks 0 0 s) of
        None \<Rightarrow> None
      | Some (exc, s1) \<Rightarrow>
          (let s2 = (case exc of
                       None \<Rightarrow> s1
                     | Some KeyboardInterrupt \<Rightarrow> s1\<lparr>stop_calls := stop_calls s1 + 1\<rparr>
                     | Some _ \<Rightarrow> s1\<lparr>logged := logged s1 @ [Critical]\<rparr>)
           in run_reports env (modules env) s2))"

section \<open>The event pipeline\<close>

text \<open>Writing to an event in the store; \<open>release_semaphore()\<close> and \<open>_resolved.set()\<close>.\<close>

definition upd_event :: "ref \<Rightarrow> (event \<Rightarrow> event) \<Rightarrow> 'h state \<Rightarrow> 'h state" where
  "upd_event r f s = s\<lparr>heap := (heap s)(r := f (heap s r))\<rparr>"

definition release_semaphore :: "ref \<Rightarrow> 'h state \<Rightarrow> 'h state" where
  "release_semaphore r s = upd_event r (\<lambda>e. e\<lparr>released := released e + 1\<rparr>) s"

definition set_resolved :: "ref \<Rightarrow> 'h state \<Rightarrow> 'h state" where
  "set_resolved r s = upd_event r (\<lambda>e. e\<lparr>resolved := True\<rparr>) s"

text \<open>
  Modelled from the spec: \<open>Event.make_in_scope\<close> and \<open>Event.make_internal\<close> are not
  part of the given sources. The spec has the first promote an event to in-scope at the
  distance it is given, and the second mark the event internal (the tag \<open>"internal"\<close>).
\<close>

definition make_in_scope :: "int \<Rightarrow> event \<Rightarrow> event" where
  "make_in_scope set_scope_distance e = e\<lparr>scope_distance := set_scope_distance\<rparr>"

definition make_internal :: "event \<Rightarrow> event" where
  "make_internal e = e\<lparr>tags := insert ''internal'' (tags e)\<rparr>"

text \<open>A new event object enters the store at the next free reference.\<close>

definition alloc :: "event \<Rightarrow> 'h state \<Rightarrow> 'h state" where
  "alloc e s = s\<lparr>heap := (heap s)(next_ref s := e), next_ref := Suc (next_ref s)\<rparr>"

text \<open>
  \<open>queue_event(event)\<close>: \<open>make_event\<close> on the event object, the counter of its type,
  and the put on the central queue.
\<close>

definition queue_event :: "'h env \<Rightarrow> 'h state \<Rightarrow> ref \<Rightarrow> exn option \<times> 'h state" where
  "queue_event env s r =
     (case make_event_same env (heap s r) of
        Some x \<Rightarrow> (Some x, s)
      | None \<Rightarrow>
          (let event = heap s r;
               n = (case queued_event_types s (etype event) of None \<Rightarrow> 1 | Some k \<Rightarrow> k + 1)
           in (None, s\<lparr>queued_event_types := (queued_event_types s)(etype event \<mapsto> n),
                         event_queue := event_queue s @ [r]\<rparr>)))"

text \<open>
  \<open>_event_precheck\<close> (the prefix \<open>priv_\<close> stands for the leading underscore of a
  Python name). Modelled from the spec: \<open>Event.get_source\<close> and \<open>Event.__eq__\<close> are not
  part of the given sources; the test \<open>event == event.get_source()\<close> is the spec's
  "an event that is its own source".
\<close>

definition priv_event_precheck :: "'h env \<Rightarrow> 'h state \<Rightarrow> ref \<Rightarrow> bool \<times> 'h state" where
  "priv_event_precheck env s r =
     (let event = heap s r in
      if dummy event then (False, s\<lparr>logged := logged s @ [Warning]\<rparr>)
      else if source event = Some r then (False, s)
      else if etype event \<noteq> ''DNS_NAME'' then
        (if fst (is_duplicate_event (py_hash env) s r False) then (False, s)
         else (fold (\<lambda>m any_acceptable. any_acceptable \<or> filter_event m event)
                 (modules env) False, s))
      else (True, s))"

text \<open>
  \<open>emit_event\<close>. A task given to the pool is the event with the options that are left
  once \<open>quick\<close> has been taken out. The handlers \<open>except Exception\<close> let a
  \<open>KeyboardInterrupt\<close> pass; on the quick path the \<open>finally\<close> clause still runs.
\<close>

definition emit_event :: "'h env \<Rightarrow> 'h state \<Rightarrow> ref \<Rightarrow> emit_opts \<Rightarrow> exn option \<times> 'h state" where
  "emit_event env s r opts =
     (case priv_event_precheck env s r of
        (ok, s0) \<Rightarrow>
          if \<not> ok then (None, set_resolved r (release_semaphore r s0))
          else if quick opts then
            (case queue_event env s0 r of
               (exc, s1) \<Rightarrow>
                 (let s2 = (case exc of
                              None \<Rightarrow> s1
                            | Some KeyboardInterrupt \<Rightarrow> s1
                            | Some _ \<Rightarrow> s1\<lparr>logged := logged s1 @ [Error]\<rparr>);
                      s3 = set_resolved r (release_semaphore r s2)
                  in case exc of
                       Some KeyboardInterrupt \<Rightarrow> (Some KeyboardInterrupt, s3)
                     | _ \<Rightarrow> (None, s3)))
          else
            (case submit_task_raises env of
               None \<Rightarrow> (None, s0\<lparr>submitted := submitted s0 @ [(r, opts\<lparr>quick := False\<rparr>)]\<rparr>)
             | Some KeyboardInterrupt \<Rightarrow> (Some KeyboardInterrupt, s0)
             | Some e \<Rightarrow>
                 (let s1 = (if e \<noteq> RuntimeError then s0\<lparr>logged := logged s0 @ [Error]\<rparr> else s0)
                  in (None, set_resolved r (release_semaphore r s1)))))"

definition no_opts :: emit_opts where
  "no_opts = \<lparr>quick = False, abort_if = None, on_success_callback = None\<rparr>"

text \<open>
  The first part of the \<open>try\<close> block of \<open>_emit_event\<close> when DNS resolution is not
  skipped: the call of the collaborator, the verdicts, the tags. It gives the local
  variables \<open>emit_event\<close>, \<open>event_whitelisted\<close> and \<open>dns_children\<close>.
\<close>

definition resolve_and_tag ::
  "'h env \<Rightarrow> ref \<Rightarrow> 'h state \<Rightarrow> (exn + bool \<times> bool \<times> (string \<times> string) list) \<times> 'h state" where
  "resolve_and_tag env r s =
     (let answer = resolve_event env (heap s r);
          s1 = (if dns_sets_resolved answer then set_resolved r s else s)
      in case dns_outcome answer of
           Inl x \<Rightarrow> (Inl x, s1)
         | Inr res \<Rightarrow>
             (let s2 = upd_event r (\<lambda>e. e\<lparr>resolved_hosts := dns_resolved_hosts res\<rparr>) s1;
                  event_whitelisted = (event_whitelisted_dns res \<or> whitelisted env (heap s2 r));
                  event_blacklisted = (event_blacklisted_dns res \<or> blacklisted env (heap s2 r));
                  s3 = (if etype (heap s2 r) \<in> {''DNS_NAME'', ''IP_ADDRESS''}
                        then upd_event r (\<lambda>e. e\<lparr>tags := tags e \<union> dns_tags res\<rparr>) s2 else s2);
                  s4 = (if event_blacklisted
                        then upd_event r (\<lambda>e. e\<lparr>tags := insert ''blacklisted'' (tags e)\<rparr>) s3 else s3);
                  emit_event = (''blacklisted'' \<notin> tags (heap s4 r))
              in (Inr (emit_event, event_whitelisted, answer_children res), s4)))"

text \<open>
  The polling loop \<open>while 1\<close>: each round reads \<open>scan.stopping\<close> and then waits a
  tenth of a second on \<open>event._resolved\<close>. The signal is written by the run of this
  event only, so its state does not change while the loop runs; the flag of the scan
  may. The loop gives the exception it raised, if any, and the number of reads of the
  flag so far; it may not return.
\<close>

partial_function (option) wait_resolved :: "(nat \<Rightarrow> bool) \<Rightarrow> bool \<Rightarrow> nat \<Rightarrow> (exn option \<times> nat) option" where
  "wait_resolved stopping is_resolved clk =
     (if stopping clk then Some (Some ScanCancelledError, clk + 1)
      else if is_resolved then Some (None, clk + 1)
      else wait_resolved stopping is_resolved (clk + 1))"

text \<open>
  The wait and the assignment \<open>event.scope_distance = event.source.scope_distance + 1\<close>.
  An event without a source has no \<open>scope_distance\<close> to read there: an
  \<open>AttributeError\<close>.
\<close>

definition wait_for_parent :: "'h env \<Rightarrow> ref \<Rightarrow> bool \<Rightarrow> 'h state \<Rightarrow> (exn option \<times> 'h state) option" where
  "wait_for_parent env r event_whitelisted s =
     (if \<not> event_whitelisted \<or> ''target'' \<notin> tags (heap s r) then
        (case wait_resolved (stopping_reads env) (resolved (heap s r)) (clock s) of
           None \<Rightarrow> None
         | Some (Some x, clk) \<Rightarrow> Some (Some x, s\<lparr>clock := clk\<rparr>)
         | Some (None, clk) \<Rightarrow>
             (case source (heap s r) of
                None \<Rightarrow> Some (Some OtherException, s\<lparr>clock := clk\<rparr>)
              | Some parent \<Rightarrow>
                  Some (None, upd_event r (\<lambda>e. e\<lparr>scope_distance := scope_distance (heap s parent) + 1\<rparr>)
                                (s\<lparr>clock := clk\<rparr>))))
      else Some (None, s))"

definition scope_shepherding :: "'h env \<Rightarrow> ref \<Rightarrow> bool \<Rightarrow> 'h state \<Rightarrow> 'h state" where
  "scope_shepherding env r event_whitelisted s =
     (let event = heap s r;
          event_is_duplicate = fst (is_duplicate_event (py_hash env) s r False);
          event_in_report_distance = (scope_distance event \<le> scope_report_distance env);
          set_scope_distance = (if event_whitelisted then 0 else scope_distance event)
      in case host event of
           Some h \<Rightarrow>
             if (event_whitelisted \<or> event_in_report_distance) \<and> \<not> event_is_duplicate
             then upd_event r (make_in_scope set_scope_distance) s
             else if scope_distance event > scope_report_distance env
                  then upd_event r make_internal s
                  else s
         | None \<Rightarrow> upd_event r (make_in_scope 0) s)"

text \<open>
  The speculation of a \<open>DNS_NAME\<close> from the host of an event of another type. It gives
  the reference of \<open>source_event\<close>.
\<close>

definition speculate :: "'h env \<Rightarrow> ref \<Rightarrow> 'h state \<Rightarrow> (exn + ref) \<times> 'h state" where
  "speculate env r s =
     (let event = heap s r in
      case host event of
        None \<Rightarrow> (Inr r, s)
      | Some h \<Rightarrow>
          if etype event \<notin> {''DNS_NAME'', ''IP_ADDRESS'', ''IP_RANGE''} then
            (let source_module = make_dummy_module env ''host'' ''internal'' in
             case make_event env h ''DNS_NAME'' source_module r event of
               Inl x \<Rightarrow> (Inl x, s)
             | Inr made \<Rightarrow>
                 (let source_event = next_ref s;
                      made1 = made\<lparr>scope_distance := scope_distance event\<rparr>;
                      made2 = (if ''target'' \<in> tags event
                               then made1\<lparr>tags := insert ''target'' (tags made1)\<rparr> else made1);
                      s1 = alloc made2 s
                  in if mod_name (module event) \<noteq> ''speculate'' then
                       (case emit_event env s1 source_event no_opts of
                          (Some x, s2) \<Rightarrow> (Inl x, s2)
                        | (None, s2) \<Rightarrow> (Inr source_event, s2))
                     else (Inr source_event, s1)))
          else (Inr r, s))"

text \<open>
  The loop that builds the child events: a \<open>ValidationError\<close> is logged and the record
  dropped, any other exception leaves the loop.
\<close>

fun make_children ::
  "'h env \<Rightarrow> ref \<Rightarrow> (string \<times> string) list \<Rightarrow> ref list \<Rightarrow> 'h state \<Rightarrow> (exn + ref list) \<times> 'h state" where
  "make_children env source_event [] dns_child_events s = (Inr dns_child_events, s)"
| "make_children env source_event ((record, rdtype) # rest) dns_child_events s =
     (case make_event env record ''DNS_NAME'' (get_dummy_module env rdtype) source_event (heap s source_event) of
        Inr child_event \<Rightarrow>
          make_children env source_event rest (dns_child_events @ [next_ref s]) (alloc child_event s)
      | Inl ValidationError \<Rightarrow>
          make_children env source_event rest dns_child_events (s\<lparr>logged := logged s @ [Warning]\<rparr>)
      | Inl x \<Rightarrow> (Inl x, s))"

text \<open>The loop \<open>for child_event in dns_child_events: self.emit_event(child_event)\<close>.\<close>

fun emit_all :: "'h env \<Rightarrow> ref list \<Rightarrow> 'h state \<Rightarrow> exn option \<times> 'h state" where
  "emit_all env [] s = (None, s)"
| "emit_all env (child_event # rest) s =
     (case emit_event env s child_event no_opts of
        (Some x, s1) \<Rightarrow> (Some x, s1)
      | (None, s1) \<Rightarrow> emit_all env rest s1)"

text \<open>
  The part of the \<open>try\<close> block under the comment "Emit DNS children". \<open>dns_children\<close>
  is \<open>None\<close> when the variable was never assigned (DNS resolution was skipped); reading
  it then is an error.
\<close>

definition emit_dns_children ::
  "'h env \<Rightarrow> ref \<Rightarrow> (string \<times> string) list option \<Rightarrow> 'h state \<Rightarrow> exn option \<times> 'h state" where
  "emit_dns_children env r dns_children s =
     (let event = heap s r;
          emit_children = (-1 < scope_distance event \<and> scope_distance event < dns_search_distance env)
      in case speculate env r s of
           (Inl x, s1) \<Rightarrow> (Some x, s1)
         | (Inr source_event, s1) \<Rightarrow>
             if dns_resolution env \<and> emit_children then
               (case dns_children of
                  None \<Rightarrow> (Some OtherException, s1)
                | Some children \<Rightarrow>
                    (case make_children env source_event children [] s1 of
                       (Inl x, s2) \<Rightarrow> (Some x, s2)
                     | (Inr dns_child_events, s2) \<Rightarrow> emit_all env dns_child_events s2))
             else (None, s1))"

text \<open>
  The part of the \<open>try\<close> block from \<open>abort_if\<close> on. The result is the exception that
  left the block, if any, the local variable \<open>event_emitted\<close>, and the state; a
  \<open>return\<close> inside the block is a result without an exception.
\<close>

definition decide_and_emit ::
  "'h env \<Rightarrow> ref \<Rightarrow> emit_opts \<Rightarrow> bool \<Rightarrow> (string \<times> string) list option \<Rightarrow> 'h state
     \<Rightarrow> (exn option \<times> bool \<times> 'h state) option" where
  "decide_and_emit env r opts emit_event_flag dns_children s =
     (case (case abort_if opts of None \<Rightarrow> Inr False | Some f \<Rightarrow> f (heap s r)) of
        Inl x \<Rightarrow> Some (Some x, False, s)
      | Inr True \<Rightarrow> Some (None, False, s)
      | Inr False \<Rightarrow>
          (case accept_event (py_hash env) s r of
             (False, s1) \<Rightarrow> Some (None, False, s1)
           | (True, s1) \<Rightarrow>
               (case (if emit_event_flag then queue_event env s1 r else (None, s1)) of
                  (Some x, s2) \<Rightarrow> Some (Some x, False, s2)
                | (None, s2) \<Rightarrow>
                    (case (case on_success_callback opts of
                             None \<Rightarrow> Some (None, s2)
                           | Some (has_qualname, f) \<Rightarrow>
                               catch env has_qualname (\<lambda>st. Some (f (heap st r), st)) False None s2) of
                       None \<Rightarrow> None
                     | Some (Some x, s3) \<Rightarrow> Some (Some x, emit_event_flag, s3)
                     | Some (None, s3) \<Rightarrow>
                         (case emit_dns_children env r dns_children s3 of
                            (exc, s4) \<Rightarrow> Some (exc, emit_event_flag, s4))))))"

text \<open>The test \<open>skip_dns_resolution\<close> at the head of the \<open>try\<close> block.\<close>

definition skips_dns :: "'h env \<Rightarrow> event \<Rightarrow> bool" where
  "skips_dns env e = (\<not> dns_resolution env \<and> ''target'' \<in> tags e \<and> \<not> has_blacklist env)"

text \<open>The whole \<open>try\<close> block of \<open>_emit_event\<close>.\<close>

definition emit_event_body ::
  "'h env \<Rightarrow> ref \<Rightarrow> emit_opts \<Rightarrow> 'h state \<Rightarrow> (exn option \<times> bool \<times> 'h state) option" where
  "emit_event_body env r opts s =
     (let skip_dns_resolution = skips_dns env (heap s r)
      in if skip_dns_resolution then decide_and_emit env r opts True None (set_resolved r s)
         else
           (case resolve_and_tag env r s of
              (Inl x, s1) \<Rightarrow> Some (Some x, False, s1)
            | (Inr (emit_event_flag, event_whitelisted, dns_children), s1) \<Rightarrow>
                (case wait_for_parent env r event_whitelisted s1 of
                   None \<Rightarrow> None
                 | Some (Some x, s2) \<Rightarrow> Some (Some x, False, s2)
                 | Some (None, s2) \<Rightarrow>
                     decide_and_emit env r opts emit_event_flag (Some dns_children)
                       (scope_shepherding env r event_whitelisted s2))))"

text \<open>
  What follows the \<open>try\<close> block of \<open>_emit_event\<close>: the handler of
  \<open>ValidationError\<close>, which logs a warning, and the \<open>finally\<close> clause, which
  releases the permit and reports an emitted event to the statistics sink. Any other
  exception goes on to the caller.
\<close>

definition finish_run :: "ref \<Rightarrow> exn option \<times> bool \<times> 'h state \<Rightarrow> exn option \<times> 'h state" where
  "finish_run r res =
     (case res of
        (exc, event_emitted, s1) \<Rightarrow>
          (let s2 = (case exc of
                       Some ValidationError \<Rightarrow> s1\<lparr>logged := logged s1 @ [Warning]\<rparr>
                     | _ \<Rightarrow> s1);
               exc' = (case exc of Some ValidationError \<Rightarrow> None | _ \<Rightarrow> exc);
               s3 = release_semaphore r s2;
               s4 = (if event_emitted then s3\<lparr>stats_emitted := stats_emitted s3 @ [r]\<rparr> else s3)
           in (exc', s4)))"

text \<open>\<open>_emit_event\<close>; it does not return when the polling loop does not.\<close>

definition priv_emit_event ::
  "'h env \<Rightarrow> ref \<Rightarrow> emit_opts \<Rightarrow> 'h state \<Rightarrow> (exn option \<times> 'h state) option" where
  "priv_emit_event env r opts s =
     (case emit_event_body env r opts s of
        None \<Rightarrow> None
      | Some res \<Rightarrow> Some (finish_run r res))"

text \<open>
  Modelled from the spec: the worker pool is not part of the given sources; the spec
  has it execute a submitted task by calling it. The task that \<open>emit_event\<close> submits is
  \<open>self.catch\<close> applied to \<open>self._emit_event\<close> (a bound method, which has
  \<open>__qualname__\<close>), the event and the options.
\<close>

definition run_task :: "'h env \<Rightarrow> ref \<times> emit_opts \<Rightarrow> 'h state \<Rightarrow> (exn option \<times> 'h state) option" where
  "run_task env task s = catch env True (priv_emit_event env (fst task) (snd task)) False None s"

section \<open>Example objects\<close>

definition ex_producer :: producer where
  "ex_producer = \<lparr>mod_name = ''httpx'', mod_type = Some ''scan'', suppress_dupes = None\<rparr>"

definition ex_dns_producer :: producer where
  "ex_dns_producer = \<lparr>mod_name = ''A'', mod_type = Some ''DNS'', suppress_dupes = None\<rparr>"

definition ex_event :: event where
  "ex_event = \<lparr>etype = ''IP_ADDRESS'', data = ''1.2.3.4'', module = ex_producer,
     source = Some 0, source_id = ''DNS_NAME:example.com'', dummy = False,
     force_output = False, host = Some ''1.2.3.4'', tags = {}, scope_distance = 1,
     resolved_hosts = {}, resolved = False, released = 0\<rparr>"

definition ex_state :: "(ref \<Rightarrow> event) \<Rightarrow> pyval state" where
  "ex_state h = \<lparr>heap = h, next_ref = 10, events_accepted = {}, events_distributed = {},
     event_queue = [], queued_event_types = Map.empty, submitted = [], stats_emitted = [],
     stats_produced = [], stats_function_called = 0, absorbed = [], delivered = [],
     reported = [], logged = [], error_state_calls = [], yielded = [], sleeps = 0,
     stop_calls = 0, status = ''RUNNING'', clock = 0, polls = 0\<rparr>"

definition ex_heap :: "ref \<Rightarrow> event" where
  "ex_heap = (\<lambda>_. ex_event)
     (0 := ex_event\<lparr>etype := ''DNS_NAME'', data := ''example.com'', source := None,
             scope_distance := 0, resolved := True\<rparr>,
      3 := ex_event\<lparr>etype := ''DNS_NAME'', data := ''www.example.com'', module := ex_dns_producer,
             source_id := ''DNS_NAME:a.example.com''\<rparr>,
      4 := ex_event\<lparr>etype := ''DNS_NAME'', data := ''www.example.com'', module := ex_dns_producer,
             source_id := ''DNS_NAME:b.example.com''\<rparr>)"

definition ex_scan_module :: bmodule where
  "ex_scan_module = \<lparr>mname = ''sslcert'', mtype = ''scan'', accept_dupes = False,
     emit_graph_trail = False, filter_event = (\<lambda>e. True), queue_event_raises = None,
     report_raises = None\<rparr>"

definition ex_output_module :: bmodule where
  "ex_output_module = \<lparr>mname = ''human'', mtype = ''output'', accept_dupes = False,
     emit_graph_trail = True, filter_event = (\<lambda>e. True), queue_event_raises = None,
     report_raises = Some OtherException\<rparr>"

definition ex_mod_status :: mod_status where
  "ex_mod_status = \<lparr>running = False, errored = False, incoming = 0, outgoing = 0, tasks_total = 0\<rparr>"

definition ex_idle :: snapshot where
  "ex_idle = \<lparr>queued_events = [(''manager'', 0)],
     queued_tasks = [(''main'', 0), (''dns'', 0), (''internal'', 0), (''event'', 0), (''total'', 0)],
     module_status = (\<lambda>n. ex_mod_status), module_errored = (\<lambda>n. False)\<rparr>"

definition ex_busy :: snapshot where
  "ex_busy = ex_idle\<lparr>queued_tasks := [(''main'', 0), (''dns'', 1), (''internal'', 0), (''event'', 0), (''total'', 1)]\<rparr>"

definition ex_new_event :: "string \<Rightarrow> string \<Rightarrow> producer \<Rightarrow> ref \<Rightarrow> event \<Rightarrow> event" where
  "ex_new_event v t m src parent = \<lparr>etype = t, data = v, module = m, source = Some src,
     source_id = etype parent @ '':'' @ data parent, dummy = False, force_output = False,
     host = Some v, tags = {}, scope_distance = scope_distance parent + 1,
     resolved_hosts = {}, resolved = False, released = 0\<rparr>"

definition ex_dns_result :: dns_result where
  "ex_dns_result = \<lparr>answer_children = [(''www.example.com'', ''CNAME''), (''bad name'', ''CNAME'')],
     dns_tags = {''a-record''}, event_whitelisted_dns = False, event_blacklisted_dns = False,
     dns_resolved_hosts = {''93.184.216.34''}\<rparr>"

definition ex_env :: "pyval env" where
  "ex_env = \<lparr>py_hash = (\<lambda>v. v), dns_resolution = True, has_blacklist = False,
     scope_search_distance = 1, scope_report_distance = 1, dns_search_distance = 2,
     modules = [ex_scan_module, ex_output_module],
     resolve_event = (\<lambda>e. \<lparr>dns_outcome = Inr ex_dns_result, dns_sets_resolved = True\<rparr>),
     whitelisted = (\<lambda>e. False), blacklisted = (\<lambda>e. False),
     make_event = (\<lambda>v t m src parent. if v = ''bad name'' then Inl ValidationError
                                       else Inr (ex_new_event v t m src parent)),
     make_event_same = (\<lambda>e. None),
     make_dummy_module = (\<lambda>n t. \<lparr>mod_name = n, mod_type = Some t, suppress_dupes = None\<rparr>),
     get_dummy_module = (\<lambda>n. \<lparr>mod_name = n, mod_type = Some ''DNS'', suppress_dupes = None\<rparr>),
     submit_task_raises = None, on_start_raises = None,
     stopping_reads = (\<lambda>i. False),
     detailed_reads = (\<lambda>i. if i = 2 then ex_busy else ex_idle)\<rparr>"

definition ex_tick :: "ref list \<Rightarrow> tick" where
  "ex_tick evs = \<lparr>ext_status = None, log_due = False, python_events = None, arrivals = evs\<rparr>"

definition ex_env_failing :: "pyval env" where
  "ex_env_failing = ex_env\<lparr>modules :=
     [ex_scan_module\<lparr>report_raises := Some OtherException\<rparr>,
      ex_output_module\<lparr>queue_event_raises := Some OtherException\<rparr>]\<rparr>"

text \<open>The state in which an iteration of the driver loop ends.\<close>

fun ctl_state :: "'a ctl \<Rightarrow> 'a" where
  "ctl_state (Break s) = s"
| "ctl_state (Raised x s) = s"
| "ctl_state (Continue c e s) = s"

section \<open>The completion detector in the words of the specification\<close>

text \<open>
  A reading shows a quiet scan when every count of queued events and every count of
  queued tasks is zero and no module reports itself running.
\<close>

definition scan_idle :: "'h env \<Rightarrow> snapshot \<Rightarrow> bool" where
  "scan_idle env snap =
     (list_all (\<lambda>n. n = 0) (map snd (queued_events snap))
      \<and> list_all (\<lambda>n. n = 0) (map snd (queued_tasks snap))
      \<and> list_all (\<lambda>m. \<not> running (module_status snap (mname m))) (modules env))"

text \<open>The state after one pass of \<open>modules_status\<close>, before any sleep.\<close>

definition pass_state :: "'h env \<Rightarrow> 'h state \<Rightarrow> 'h state" where
  "pass_state env s =
     fold (\<lambda>m st. if module_errored (detailed_reads env (polls s)) (mname m)
                   then st\<lparr>error_state_calls := error_state_calls st @ [mname m]\<rparr>
                   else st)
       (modules env) (s\<lparr>polls := polls s + 1\<rparr>)"

section \<open>The dispatcher in the words of the specification\<close>

text \<open>
  A scope distance is within a limit when it is set (above \<open>-1\<close>) and does not exceed
  the limit. A module is to receive an event when the event is no duplicate in the
  distributed ledger or the module accepts duplicates, and the policy of its type holds:
  for an output module the distance is within \<open>scope_report_distance\<close>, or the event is
  forced to output and the module emits graph trails; for any other module the distance
  is within \<open>scope_search_distance\<close>.
\<close>

definition within_distance :: "int \<Rightarrow> int \<Rightarrow> bool" where
  "within_distance d limit = (-1 < d \<and> d \<le> limit)"

definition delivery_policy :: "'h env \<Rightarrow> event \<Rightarrow> bool \<Rightarrow> bmodule \<Rightarrow> bool" where
  "delivery_policy env e is_duplicate m =
     ((\<not> is_duplicate \<or> accept_dupes m)
      \<and> (if mtype m = ''output''
         then within_distance (scope_distance e) (scope_report_distance env)
              \<or> (force_output e \<and> emit_graph_trail m)
         else within_distance (scope_distance e) (scope_search_distance env)))"


section \<open>Notions used in the statements about the pipeline\<close>

text \<open>
  The event as \<open>scan.whitelisted\<close> and \<open>scan.blacklisted\<close> are given it in
  \<open>_emit_event\<close>: after the call of the DNS collaborator and the assignment of
  \<open>_resolved_hosts\<close>.
\<close>

definition seen_by_matchers :: "'h env \<Rightarrow> event \<Rightarrow> event" where
  "seen_by_matchers env e =
     (let answer = resolve_event env e
      in e\<lparr>resolved := (resolved e \<or> dns_sets_resolved answer),
           resolved_hosts := (case dns_outcome answer of
                                Inl x \<Rightarrow> resolved_hosts e
                              | Inr res \<Rightarrow> dns_resolved_hosts res)\<rparr>)"

text \<open>
  Two relations between a state and a later one, used in the proofs. \<open>keeps r\<close>: the
  event \<open>r\<close>, the central queue and the events reported as emitted are the same, and no
  reference has been given back. \<open>marks_only r\<close>: nothing has changed but the tags, the
  scope distance, the resolved hosts and the completion signal of the event \<open>r\<close>, and
  the number of reads of \<open>scan.stopping\<close>.
\<close>

definition keeps :: "ref \<Rightarrow> 'h state \<Rightarrow> 'h state \<Rightarrow> bool" where
  "keeps r s s' = (heap s' r = heap s r \<and> next_ref s \<le> next_ref s'
      \<and> event_queue s' = event_queue s \<and> stats_emitted s' = stats_emitted s)"

definition marks_only :: "ref \<Rightarrow> 'h state \<Rightarrow> 'h state \<Rightarrow> bool" where
  "marks_only r s s' =
     (\<exists>tg sd rh rs ck.
        s' = s\<lparr>heap := (heap s)(r := (heap s r)\<lparr>tags := tg, scope_distance := sd,
                    resolved_hosts := rh, resolved := rs\<rparr>),
                clock := ck\<rparr>)"

text \<open>
  The two verdicts as \<open>_emit_event\<close> merges them from the answer of the DNS collaborator
  and from the static matchers (\<open>event_whitelisted\<close> and \<open>event_blacklisted\<close>), and
  the tags of the event once it has taken the tags of the answer (before the tag
  \<open>"blacklisted"\<close> is added).
\<close>

definition whitelisted_verdict :: "'h env \<Rightarrow> event \<Rightarrow> dns_result \<Rightarrow> bool" where
  "whitelisted_verdict env e res = (event_whitelisted_dns res \<or> whitelisted env (seen_by_matchers env e))"

definition blacklisted_verdict :: "'h env \<Rightarrow> event \<Rightarrow> dns_result \<Rightarrow> bool" where
  "blacklisted_verdict env e res = (event_blacklisted_dns res \<or> blacklisted env (seen_by_matchers env e))"

definition tags_after_dns :: "event \<Rightarrow> dns_result \<Rightarrow> string set" where
  "tags_after_dns e res =
     tags e \<union> (if etype e \<in> {''DNS_NAME'', ''IP_ADDRESS''} then dns_tags res else {})"




section \<open>More example objects\<close>

text \<open>
  Variants of the example scan: one that is stopping, one whose whitelist and one whose
  blacklist match every event;
  a caller's options with \<open>quick\<close>; a \<open>DNS_NAME\<close> event, and states that hold it,
  one of them with the hash of the event already in the accepted ledger.
\<close>

definition ex_env_stopping :: "pyval env" where
  "ex_env_stopping = ex_env\<lparr>stopping_reads := (\<lambda>i. True)\<rparr>"

definition ex_quick_opts :: emit_opts where
  "ex_quick_opts = \<lparr>quick = True, abort_if = Some (\<lambda>e. Inr True),
     on_success_callback = Some (True, \<lambda>e. Some OtherException)\<rparr>"

definition ex_dns_event :: event where
  "ex_dns_event = ex_event\<lparr>etype := ''DNS_NAME'', data := ''www.example.com'',
     host := Some ''www.example.com'', scope_distance := 3\<rparr>"

definition ex_env_whitelisting :: "pyval env" where
  "ex_env_whitelisting = ex_env\<lparr>whitelisted := (\<lambda>e. True)\<rparr>"

definition ex_env_blacklisting :: "pyval env" where
  "ex_env_blacklisting = ex_env\<lparr>blacklisted := (\<lambda>e. True)\<rparr>"

definition ex_state_seen :: "pyval state" where
  "ex_state_seen = (ex_state (ex_heap (5 := ex_dns_event)))
     \<lparr>events_accepted := {PyTuple [PyEvent ''DNS_NAME'' ''www.example.com'', PyStr ''httpx'']}\<rparr>"

definition ex_state_dns :: "pyval state" where
  "ex_state_dns = ex_state (ex_heap (5 := ex_dns_event))"

text \<open>
  More variants: a DNS collaborator that leaves the completion signal alone, alone or
  together with a scan that starts stopping at the second or third read of the flag, or
  with a whitelist and a blacklist that match every event; a whitelisting scan with DNS
  resolution switched off; a caller's \<open>abort_if\<close> that vetoes. States: one whose event
  5 has a parent with an unset completion signal, one whose event 5 carries the tag
  \<open>"target"\<close>, one whose event 5 has no host, one whose event 5 is a \<open>URL\<close>.
\<close>

definition ex_env_silent_dns :: "pyval env" where
  "ex_env_silent_dns = ex_env\<lparr>resolve_event :=
     (\<lambda>e. \<lparr>dns_outcome = Inr ex_dns_result, dns_sets_resolved = False\<rparr>)\<rparr>"

definition ex_state_orphan :: "pyval state" where
  "ex_state_orphan = ex_state (ex_heap (0 := (ex_heap 0)\<lparr>resolved := False\<rparr>, 5 := ex_dns_event))"

definition ex_env_cancelling :: "pyval env" where
  "ex_env_cancelling = ex_env_silent_dns\<lparr>stopping_reads := (\<lambda>i. i = 1)\<rparr>"

definition ex_env_skipping :: "pyval env" where
  "ex_env_skipping = ex_env_whitelisting\<lparr>dns_resolution := False\<rparr>"

definition ex_state_target :: "pyval state" where
  "ex_state_target = ex_state (ex_heap (5 := ex_dns_event\<lparr>tags := {''target''}\<rparr>))"

definition ex_state_hostless :: "pyval state" where
  "ex_state_hostless = ex_state (ex_heap (5 := ex_dns_event\<lparr>host := None\<rparr>))"

definition ex_env_stalling :: "pyval env" where
  "ex_env_stalling = ex_env_silent_dns\<lparr>stopping_reads := (\<lambda>i. i = 2)\<rparr>"




section \<open>Properties of duplicate detection\<close>

lemma accept_event_heap: "heap (snd (accept_event H s r)) = heap s"
  by (simp add: accept_event_def is_duplicate_event_def Let_def)

lemma accept_event_ledger:
  "events_accepted (snd (accept_event H s r)) = insert (hash_event H (heap s r)) (events_accepted s)"
  by (simp add: accept_event_def is_duplicate_event_def Let_def)

text \<open>
  Claim C9. When the producer of an event has \<open>suppress_dupes\<close> set to false,
  \<open>is_duplicate_event\<close> returns false and \<open>accept_event\<close> accepts the event, in
  every state of the accepted ledger: whatever was accepted before, and whether or not
  the hash of the event is already in the ledger.
\<close>

theorem is_duplicate_event_suppress_off:
  assumes "suppress_dupes (module (heap s r)) = Some False"
  shows "\<not> fst (is_duplicate_event H s r add) \<and> fst (accept_event H s r)"
  using assms by (simp add: accept_event_def is_duplicate_event_def Let_def)

theorem is_duplicate_event_suppress_off_witness:
  "\<not> fst (is_duplicate_event (\<lambda>v. v)
       (snd (accept_event (\<lambda>v. v) (ex_state (ex_heap (1 := ex_event\<lparr>module := ex_producer\<lparr>suppress_dupes := Some False\<rparr>\<rparr>))) 1)) 1 False)
   \<and> fst (accept_event (\<lambda>v. v)
       (snd (accept_event (\<lambda>v. v) (ex_state (ex_heap (1 := ex_event\<lparr>module := ex_producer\<lparr>suppress_dupes := Some False\<rparr>\<rparr>))) 1)) 1)"
  using is_duplicate_event_suppress_off [of "snd (accept_event (\<lambda>v. v) (ex_state (ex_heap (1 := ex_event\<lparr>module := ex_producer\<lparr>suppress_dupes := Some False\<rparr>\<rparr>))) 1)" 1 "\<lambda>v. v" False]
  by (simp add: accept_event_heap ex_state_def ex_heap_def ex_event_def ex_producer_def)

text \<open>
  Claim C4. Take two events with the same type, the same value and the same module name.
  When neither module is of type \<open>"DNS"\<close> and the second event has the default
  duplicate suppression (its module does not switch \<open>suppress_dupes\<close> off and the event
  is not forced to output), \<open>accept_event\<close> rejects the second after the first. When
  both modules are of type \<open>"DNS"\<close> and the events differ in \<open>source_id\<close>, both are
  accepted, provided neither hash is in the ledger yet: the hash of such an event also
  covers \<open>source_id\<close>. The second part needs hashes that do not collide, which is the
  hypothesis \<open>inj H\<close>.
\<close>

theorem accept_event_dedup:
  fixes H :: "pyval \<Rightarrow> 'h" and s :: "'h state"
  assumes "etype (heap s r1) = etype (heap s r2)"
    and "data (heap s r1) = data (heap s r2)"
    and "mod_name (module (heap s r1)) = mod_name (module (heap s r2))"
  shows "(mod_type (module (heap s r1)) \<noteq> Some ''DNS'' \<and> mod_type (module (heap s r2)) \<noteq> Some ''DNS''
            \<and> suppress_dupes (module (heap s r2)) \<noteq> Some False \<and> \<not> force_output (heap s r2)
          \<longrightarrow> \<not> fst (accept_event H (snd (accept_event H s r1)) r2))
       \<and> (mod_type (module (heap s r1)) = Some ''DNS'' \<and> mod_type (module (heap s r2)) = Some ''DNS''
            \<and> source_id (heap s r1) \<noteq> source_id (heap s r2) \<and> inj H
            \<and> hash_event H (heap s r1) \<notin> events_accepted s
            \<and> hash_event H (heap s r2) \<notin> events_accepted s
          \<longrightarrow> fst (accept_event H s r1) \<and> fst (accept_event H (snd (accept_event H s r1)) r2))"
proof (rule conjI; rule impI)
  assume a: "mod_type (module (heap s r1)) \<noteq> Some ''DNS'' \<and> mod_type (module (heap s r2)) \<noteq> Some ''DNS''
            \<and> suppress_dupes (module (heap s r2)) \<noteq> Some False \<and> \<not> force_output (heap s r2)"
  have "hash_event H (heap s r1) = hash_event H (heap s r2)"
    using a assms by (auto simp: hash_event_def Let_def split: option.splits)
  then show "\<not> fst (accept_event H (snd (accept_event H s r1)) r2)"
    using a
    by (auto simp: accept_event_def is_duplicate_event_def Let_def split: option.splits)
next
  assume b: "mod_type (module (heap s r1)) = Some ''DNS'' \<and> mod_type (module (heap s r2)) = Some ''DNS''
            \<and> source_id (heap s r1) \<noteq> source_id (heap s r2) \<and> inj H
            \<and> hash_event H (heap s r1) \<notin> events_accepted s
            \<and> hash_event H (heap s r2) \<notin> events_accepted s"
  then have ne: "hash_event H (heap s r1) \<noteq> hash_event H (heap s r2)"
    by (auto simp: hash_event_def Let_def dest: injD)
  show "fst (accept_event H s r1) \<and> fst (accept_event H (snd (accept_event H s r1)) r2)"
    using b ne
    by (auto simp: accept_event_def is_duplicate_event_def Let_def split: option.splits)
qed

theorem accept_event_dedup_witness:
  "\<not> fst (accept_event (\<lambda>v. v) (snd (accept_event (\<lambda>v. v) (ex_state ex_heap) 1)) 2)
   \<and> fst (accept_event (\<lambda>v. v) (ex_state ex_heap) 3)
   \<and> fst (accept_event (\<lambda>v. v) (snd (accept_event (\<lambda>v. v) (ex_state ex_heap) 3)) 4)"
  using accept_event_dedup [of "ex_state ex_heap" 1 2 "\<lambda>v. v"]
        accept_event_dedup [of "ex_state ex_heap" 3 4 "\<lambda>v. v"]
  by (simp add: ex_state_def ex_heap_def ex_event_def ex_producer_def ex_dns_producer_def
        hash_event_def)

section \<open>Properties of the completion detector\<close>

lemma fold_clear_counts:
  "fold (\<lambda>n fin. if n > 0 then False else fin) (xs :: nat list) b = (b \<and> list_all (\<lambda>n. n = 0) xs)"
  by (induction xs arbitrary: b) auto

lemma fold_clear_running:
  "fold (\<lambda>m fin. if running (f m) then False else fin) ms b = (b \<and> list_all (\<lambda>m. \<not> running (f m)) ms)"
  by (induction ms arbitrary: b) auto

lemma fold_error_state_polls:
  "polls (fold (\<lambda>m st. if c m then st\<lparr>error_state_calls := error_state_calls st @ [mname m]\<rparr> else st) ms s) = polls s"
  by (induction ms arbitrary: s) auto

lemma fold_error_state_sleeps:
  "sleeps (fold (\<lambda>m st. if c m then st\<lparr>error_state_calls := error_state_calls st @ [mname m]\<rparr> else st) ms s) = sleeps s"
  by (induction ms arbitrary: s) auto

lemma pass_state_polls: "polls (pass_state env s) = polls s + 1"
  by (simp add: pass_state_def fold_error_state_polls)

lemma pass_state_sleeps: "sleeps (pass_state env s) = sleeps s"
  by (simp add: pass_state_def fold_error_state_sleeps)

lemma status_loop_unfold:
  "0 < passes \<Longrightarrow> status_loop env passes True rd s =
     (if scan_idle env (detailed_reads env (polls s)) \<and> 1 < passes
      then status_loop env (passes - 1) True (Some (detailed_reads env (polls s)))
             ((pass_state env s)\<lparr>sleeps := sleeps (pass_state env s) + 1\<rparr>)
      else (scan_idle env (detailed_reads env (polls s)),
            Some (detailed_reads env (polls s)), pass_state env s))"
  by (subst status_loop.simps)
     (simp add: Let_def fold_clear_counts fold_clear_running scan_idle_def pass_state_def)

lemma status_loop_busy:
  assumes "0 < passes" and "\<not> scan_idle env (detailed_reads env (polls s))"
  shows "fst (status_loop env passes True rd s) = False
       \<and> polls (snd (snd (status_loop env passes True rd s))) = polls s + 1
       \<and> sleeps (snd (snd (status_loop env passes True rd s))) = sleeps s"
  using assms by (simp add: status_loop_unfold pass_state_polls pass_state_sleeps)

lemma status_loop_idle_last:
  assumes "scan_idle env (detailed_reads env (polls s))"
  shows "fst (status_loop env 1 True rd s) = True
       \<and> polls (snd (snd (status_loop env 1 True rd s))) = polls s + 1
       \<and> sleeps (snd (snd (status_loop env 1 True rd s))) = sleeps s"
  using assms by (simp add: status_loop_unfold pass_state_polls pass_state_sleeps)

lemma status_loop_idle_step:
  assumes "1 < passes" and "scan_idle env (detailed_reads env (polls s))"
  shows "\<exists>s' rd'. status_loop env passes True rd s = status_loop env (passes - 1) True rd' s'
           \<and> polls s' = polls s + 1 \<and> sleeps s' = sleeps s + 1"
proof -
  have "status_loop env passes True rd s =
          status_loop env (passes - 1) True (Some (detailed_reads env (polls s)))
             ((pass_state env s)\<lparr>sleeps := sleeps (pass_state env s) + 1\<rparr>)"
    using assms by (simp add: status_loop_unfold)
  moreover have "polls ((pass_state env s)\<lparr>sleeps := sleeps (pass_state env s) + 1\<rparr>) = polls s + 1"
    by (simp add: pass_state_polls)
  moreover have "sleeps ((pass_state env s)\<lparr>sleeps := sleeps (pass_state env s) + 1\<rparr>) = sleeps s + 1"
    by (simp add: pass_state_sleeps)
  ultimately show ?thesis by blast
qed

lemma status_loop_first_busy:
  "k < n \<Longrightarrow> (\<forall>i<k. scan_idle env (detailed_reads env (polls s + i)))
     \<Longrightarrow> \<not> scan_idle env (detailed_reads env (polls s + k))
     \<Longrightarrow> fst (status_loop env (int n) True rd s) = False
       \<and> polls (snd (snd (status_loop env (int n) True rd s))) = polls s + k + 1
       \<and> sleeps (snd (snd (status_loop env (int n) True rd s))) = sleeps s + k"
proof (induction k arbitrary: n s rd)
  case 0
  then show ?case using status_loop_busy [of "int n" env s rd] by simp
next
  case (Suc k)
  have idle0: "scan_idle env (detailed_reads env (polls s))"
    using Suc.prems(2) by (auto dest: spec [of _ 0])
  have "1 < int n" using Suc.prems(1) by simp
  from status_loop_idle_step [OF this idle0, of rd]
  obtain s' rd' where
    eq: "status_loop env (int n) True rd s = status_loop env (int n - 1) True rd' s'"
    and p: "polls s' = polls s + 1" and sl: "sleeps s' = sleeps s + 1" by blast
  have n1: "int n - 1 = int (n - 1)" using Suc.prems(1) by simp
  have "k < n - 1" using Suc.prems(1) by simp
  moreover have "\<forall>i<k. scan_idle env (detailed_reads env (polls s' + i))"
  proof (intro allI impI)
    fix i assume "i < k"
    then have "Suc i < Suc k" by simp
    then have "scan_idle env (detailed_reads env (polls s + Suc i))" using Suc.prems(2) by blast
    then show "scan_idle env (detailed_reads env (polls s' + i))" using p by simp
  qed
  moreover have "\<not> scan_idle env (detailed_reads env (polls s' + k))"
    using Suc.prems(3) p by simp
  ultimately have ih: "fst (status_loop env (int (n - 1)) True rd' s') = False
       \<and> polls (snd (snd (status_loop env (int (n - 1)) True rd' s'))) = polls s' + k + 1
       \<and> sleeps (snd (snd (status_loop env (int (n - 1)) True rd' s'))) = sleeps s' + k"
    by (rule Suc.IH)
  have eq': "status_loop env (int n) True rd s = status_loop env (int (n - 1)) True rd' s'"
    by (simp only: eq n1)
  show ?case unfolding eq' using ih p sl by simp
qed

lemma status_loop_all_idle:
  "0 < n \<Longrightarrow> (\<forall>i<n. scan_idle env (detailed_reads env (polls s + i)))
     \<Longrightarrow> fst (status_loop env (int n) True rd s) = True
       \<and> polls (snd (snd (status_loop env (int n) True rd s))) = polls s + n
       \<and> sleeps (snd (snd (status_loop env (int n) True rd s))) = sleeps s + n - 1"
proof (induction n arbitrary: s rd)
  case 0
  then show ?case by simp
next
  case (Suc n)
  have idle0: "scan_idle env (detailed_reads env (polls s))"
    using Suc.prems(2) by (auto dest: spec [of _ 0])
  show ?case
  proof (cases "n = 0")
    case True
    then show ?thesis using status_loop_idle_last [OF idle0, of rd] by simp
  next
    case False
    then have "1 < int (Suc n)" by simp
    from status_loop_idle_step [OF this idle0, of rd]
    obtain s' rd' where
      eq: "status_loop env (int (Suc n)) True rd s = status_loop env (int (Suc n) - 1) True rd' s'"
      and p: "polls s' = polls s + 1" and sl: "sleeps s' = sleeps s + 1" by blast
    have "\<forall>i<n. scan_idle env (detailed_reads env (polls s' + i))"
      proof (intro allI impI)
      fix i assume "i < n"
      then have "Suc i < Suc n" by simp
      then have "scan_idle env (detailed_reads env (polls s + Suc i))" using Suc.prems(2) by blast
      then show "scan_idle env (detailed_reads env (polls s' + i))" using p by simp
    qed
    then have ih: "fst (status_loop env (int n) True rd' s') = True
       \<and> polls (snd (snd (status_loop env (int n) True rd' s'))) = polls s' + n
       \<and> sleeps (snd (snd (status_loop env (int n) True rd' s'))) = sleeps s' + n - 1"
      using False by (intro Suc.IH) simp_all
    have eq': "status_loop env (int (Suc n)) True rd s = status_loop env (int n) True rd' s'"
    proof -
      have "int (Suc n) - 1 = int n" by simp
      then show ?thesis using eq by (simp only:)
    qed
    show ?thesis unfolding eq' using ih p sl False by simp
  qed
qed

text \<open>
  Claim C5. Called without \<open>passes\<close>, \<open>modules_status\<close> makes up to five passes,
  each on a fresh reading. It answers \<open>finished\<close> exactly when the five successive
  readings all show a quiet scan (every count of queued events and of queued tasks zero,
  no module running), and then it has read five times and slept four times, once between
  two passes. When reading \<open>k\<close> is the first that is not quiet, it answers not finished
  after \<open>k + 1\<close> readings and \<open>k\<close> sleeps: it returns at once, without the remaining
  passes.
\<close>

theorem modules_status_confirmation:
  "(fst (modules_status env log None s)
      \<longleftrightarrow> (\<forall>i<5. scan_idle env (detailed_reads env (polls s + i))))
   \<and> (\<forall>k<5. (\<forall>i<k. scan_idle env (detailed_reads env (polls s + i)))
              \<and> \<not> scan_idle env (detailed_reads env (polls s + k))
        \<longrightarrow> \<not> fst (modules_status env log None s)
            \<and> polls (snd (snd (modules_status env log None s))) = polls s + k + 1
            \<and> sleeps (snd (snd (modules_status env log None s))) = sleeps s + k)
   \<and> ((\<forall>i<5. scan_idle env (detailed_reads env (polls s + i)))
        \<longrightarrow> polls (snd (snd (modules_status env log None s))) = polls s + 5
            \<and> sleeps (snd (snd (modules_status env log None s))) = sleeps s + 4)"
proof -
  have ms: "modules_status env log None s = status_loop env (int 5) True None s"
    by (simp add: modules_status_def)
  have busy: "\<not> fst (modules_status env log None s)
            \<and> polls (snd (snd (modules_status env log None s))) = polls s + k + 1
            \<and> sleeps (snd (snd (modules_status env log None s))) = sleeps s + k"
    if "k < 5" "\<forall>i<k. scan_idle env (detailed_reads env (polls s + i))"
       "\<not> scan_idle env (detailed_reads env (polls s + k))" for k
    using status_loop_first_busy [OF that, of None] ms by simp
  have idle: "fst (modules_status env log None s)
            \<and> polls (snd (snd (modules_status env log None s))) = polls s + 5
            \<and> sleeps (snd (snd (modules_status env log None s))) = sleeps s + 4"
    if "\<forall>i<5. scan_idle env (detailed_reads env (polls s + i))"
    using status_loop_all_idle [of 5 env s None] that ms by simp
  have first: "\<exists>k<5. (\<forall>i<k. scan_idle env (detailed_reads env (polls s + i)))
                 \<and> \<not> scan_idle env (detailed_reads env (polls s + k))"
    if "\<not> (\<forall>i<5. scan_idle env (detailed_reads env (polls s + i)))"
  proof -
    let ?P = "\<lambda>i. i < 5 \<and> \<not> scan_idle env (detailed_reads env (polls s + i))"
    from that obtain j where "?P j" by blast
    then have "?P (LEAST i. ?P i)" by (rule LeastI)
    moreover have "\<forall>i<(LEAST i. ?P i). \<not> ?P i" using not_less_Least by blast
    ultimately show ?thesis by (metis (no_types, lifting) less_trans)
  qed
  show ?thesis using busy idle first by blast
qed


theorem modules_status_confirmation_witness:
  "\<not> fst (modules_status ex_env False None (ex_state ex_heap))
   \<and> polls (snd (snd (modules_status ex_env False None (ex_state ex_heap)))) = 3
   \<and> sleeps (snd (snd (modules_status ex_env False None (ex_state ex_heap)))) = 2
   \<and> fst (modules_status ex_env False None ((ex_state ex_heap)\<lparr>polls := 3\<rparr>))
   \<and> polls (snd (snd (modules_status ex_env False None ((ex_state ex_heap)\<lparr>polls := 3\<rparr>)))) = 8
   \<and> sleeps (snd (snd (modules_status ex_env False None ((ex_state ex_heap)\<lparr>polls := 3\<rparr>)))) = 4"
proof -
  have idle: "scan_idle ex_env (detailed_reads ex_env i) = (i \<noteq> 2)" for i
    by (simp add: scan_idle_def ex_env_def ex_idle_def ex_busy_def ex_mod_status_def
          ex_scan_module_def ex_output_module_def)
  have p0: "polls (ex_state ex_heap) = 0" and s0: "sleeps (ex_state ex_heap) = 0"
    by (simp_all add: ex_state_def)
  have "(2::nat) < 5 \<and> (\<forall>i<2. scan_idle ex_env (detailed_reads ex_env (polls (ex_state ex_heap) + i)))
      \<and> \<not> scan_idle ex_env (detailed_reads ex_env (polls (ex_state ex_heap) + 2))"
    by (simp add: idle p0)
  then have a: "\<not> fst (modules_status ex_env False None (ex_state ex_heap))
     \<and> polls (snd (snd (modules_status ex_env False None (ex_state ex_heap)))) = 3
     \<and> sleeps (snd (snd (modules_status ex_env False None (ex_state ex_heap)))) = 2"
    using modules_status_confirmation [of ex_env False "ex_state ex_heap",
            THEN conjunct2, THEN conjunct1, rule_format, of 2] p0 s0
    by simp
  have "\<forall>i<5. scan_idle ex_env (detailed_reads ex_env (polls ((ex_state ex_heap)\<lparr>polls := 3\<rparr>) + i))"
    by (simp add: idle)
  then have b: "fst (modules_status ex_env False None ((ex_state ex_heap)\<lparr>polls := 3\<rparr>))
   \<and> polls (snd (snd (modules_status ex_env False None ((ex_state ex_heap)\<lparr>polls := 3\<rparr>)))) = 8
   \<and> sleeps (snd (snd (modules_status ex_env False None ((ex_state ex_heap)\<lparr>polls := 3\<rparr>)))) = 4"
    using modules_status_confirmation [of ex_env False "(ex_state ex_heap)\<lparr>polls := 3\<rparr>"] s0
    by simp
  show ?thesis using a b by simp
qed

section \<open>Properties of the dispatcher\<close>

lemma distribute_loop_Cons:
  "queue_event_raises m = None \<Longrightarrow>
   distribute_loop env r dup (m # ms) recorded s =
     (if delivery_policy env (heap s r) dup m
      then distribute_loop env r dup ms (recorded \<or> mtype m = ''output'')
             (if mtype m = ''output'' \<and> \<not> recorded
              then s\<lparr>delivered := delivered s @ [(mname m, ItemEvent r)],
                     stats_produced := stats_produced s @ [r]\<rparr>
              else s\<lparr>delivered := delivered s @ [(mname m, ItemEvent r)]\<rparr>)
      else distribute_loop env r dup ms recorded s)"
  apply (simp only: distribute_loop.simps Let_def delivery_policy_def within_distance_def)
  apply (cases "mtype m = ''output''"; cases recorded; cases "\<not> dup \<or> accept_dupes m")
         apply (simp_all)
  done

lemma distribute_loop_deliveries:
  assumes "list_all (\<lambda>m. queue_event_raises m = None) ms"
  shows "fst (distribute_loop env r dup ms recorded s) = None
       \<and> heap (snd (distribute_loop env r dup ms recorded s)) = heap s
       \<and> delivered (snd (distribute_loop env r dup ms recorded s))
           = delivered s @ map (\<lambda>m. (mname m, ItemEvent r)) (filter (delivery_policy env (heap s r) dup) ms)
       \<and> stats_produced (snd (distribute_loop env r dup ms recorded s))
           = stats_produced s @
             (if \<not> recorded \<and> list_ex (\<lambda>m. mtype m = ''output'' \<and> delivery_policy env (heap s r) dup m) ms
              then [r] else [])"
  using assms
proof (induction ms arbitrary: recorded s)
  case Nil
  then show ?case by simp
next
  case (Cons m ms)
  then have IH: "\<And>recorded s. fst (distribute_loop env r dup ms recorded s) = None
       \<and> heap (snd (distribute_loop env r dup ms recorded s)) = heap s
       \<and> delivered (snd (distribute_loop env r dup ms recorded s))
           = delivered s @ map (\<lambda>m. (mname m, ItemEvent r)) (filter (delivery_policy env (heap s r) dup) ms)
       \<and> stats_produced (snd (distribute_loop env r dup ms recorded s))
           = stats_produced s @
             (if \<not> recorded \<and> list_ex (\<lambda>m. mtype m = ''output'' \<and> delivery_policy env (heap s r) dup m) ms
              then [r] else [])"
    by simp
  have q: "queue_event_raises m = None" using Cons.prems by simp
  show ?case
    by (cases "delivery_policy env (heap s r) dup m"; cases "mtype m = ''output''"; cases recorded)
       (simp_all add: distribute_loop_Cons [OF q] IH del: distribute_loop.simps)
qed

text \<open>
  Claim C6. When no module's \<open>queue_event\<close> raises, \<open>distribute_event\<close> hands the
  event to exactly the registered modules that the delivery policy names, each once and
  in the order of the registry: a module receives the event if and only if the event is
  not yet in the distributed ledger or the module accepts duplicates, and the policy of
  its type and the scope distance holds. The statistics sink is told \<open>event_produced\<close>
  once when at least one output module receives the event, and not at all otherwise.
\<close>

theorem distribute_event_delivery:
  assumes "list_all (\<lambda>m. queue_event_raises m = None) (modules env)"
  shows "fst (distribute_event env s r) = None
       \<and> delivered (snd (distribute_event env s r))
           = delivered s @ map (\<lambda>m. (mname m, ItemEvent r))
               (filter (delivery_policy env (heap s r)
                          (py_hash env (PyEvent (etype (heap s r)) (data (heap s r))) \<in> events_distributed s))
                  (modules env))
       \<and> stats_produced (snd (distribute_event env s r))
           = stats_produced s @
             (if list_ex (\<lambda>m. mtype m = ''output''
                    \<and> delivery_policy env (heap s r)
                        (py_hash env (PyEvent (etype (heap s r)) (data (heap s r))) \<in> events_distributed s) m)
                  (modules env)
              then [r] else [])"
proof -
  define dup where "dup = (py_hash env (PyEvent (etype (heap s r)) (data (heap s r))) \<in> events_distributed s)"
  define s1 where "s1 = (if dup then s
     else s\<lparr>events_distributed := insert (py_hash env (PyEvent (etype (heap s r)) (data (heap s r)))) (events_distributed s)\<rparr>)"
  define s2 where "s2 = (if \<not> dup \<and> -1 < scope_distance (heap s r) \<and> scope_distance (heap s r) < 1
     then s1\<lparr>absorbed := absorbed s1 @ [r]\<rparr> else s1)"
  have eq: "distribute_event env s r = distribute_loop env r dup (modules env) False s2"
    by (simp add: distribute_event_def Let_def dup_def s1_def s2_def)
  have frame: "heap s2 = heap s" "delivered s2 = delivered s" "stats_produced s2 = stats_produced s"
    by (simp_all add: s1_def s2_def)
  show ?thesis
    unfolding eq dup_def [symmetric]
    using distribute_loop_deliveries [OF assms, of env r dup False s2]
    by (simp add: frame)
qed


theorem distribute_event_delivery_witness:
  "list_all (\<lambda>m. queue_event_raises m = None) (modules ex_env)
   \<and> fst (distribute_event ex_env (ex_state ex_heap) 1) = None
   \<and> delivered (snd (distribute_event ex_env (ex_state ex_heap) 1))
       = [(''sslcert'', ItemEvent 1), (''human'', ItemEvent 1)]
   \<and> stats_produced (snd (distribute_event ex_env (ex_state ex_heap) 1)) = [1]
   \<and> delivered (snd (distribute_event ex_env
        ((ex_state ex_heap)\<lparr>events_distributed := {PyEvent ''IP_ADDRESS'' ''1.2.3.4''}\<rparr>) 1)) = []
   \<and> stats_produced (snd (distribute_event ex_env
        ((ex_state ex_heap)\<lparr>events_distributed := {PyEvent ''IP_ADDRESS'' ''1.2.3.4''}\<rparr>) 1)) = []"
proof -
  have m: "list_all (\<lambda>m. queue_event_raises m = None) (modules ex_env)"
    by (simp add: ex_env_def ex_scan_module_def ex_output_module_def)
  show ?thesis
    using m distribute_event_delivery [OF m, of "ex_state ex_heap" 1]
      distribute_event_delivery [OF m,
        of "(ex_state ex_heap)\<lparr>events_distributed := {PyEvent ''IP_ADDRESS'' ''1.2.3.4''}\<rparr>" 1]
    by (simp add: ex_env_def ex_scan_module_def ex_output_module_def ex_state_def ex_heap_def
          ex_event_def delivery_policy_def within_distance_def)
qed

section \<open>Properties of the driver loop\<close>

lemma fold_error_state_shape:
  "\<exists>ec. fold (\<lambda>m st. if c m then st\<lparr>error_state_calls := error_state_calls st @ [mname m]\<rparr> else st) ms s
         = s\<lparr>error_state_calls := ec\<rparr>"
proof (induction ms arbitrary: s)
  case Nil
  have "s = s\<lparr>error_state_calls := error_state_calls s\<rparr>" by simp
  then show ?case by (metis fold_simps(1))
next
  case (Cons m ms)
  show ?case
  proof (cases "c m")
    case True
    from Cons [of "s\<lparr>error_state_calls := error_state_calls s @ [mname m]\<rparr>"]
    obtain ec where "fold (\<lambda>m st. if c m then st\<lparr>error_state_calls := error_state_calls st @ [mname m]\<rparr> else st) ms
        (s\<lparr>error_state_calls := error_state_calls s @ [mname m]\<rparr>)
      = s\<lparr>error_state_calls := error_state_calls s @ [mname m]\<rparr>\<lparr>error_state_calls := ec\<rparr>" by blast
    then show ?thesis using True by (intro exI [of _ ec]) simp
  next
    case False
    then show ?thesis using Cons [of s] by simp
  qed
qed

lemma pass_state_shape: "\<exists>ec. pass_state env s = s\<lparr>polls := polls s + 1, error_state_calls := ec\<rparr>"
  unfolding pass_state_def
  using fold_error_state_shape [of "\<lambda>m. module_errored (detailed_reads env (polls s)) (mname m)"
          "modules env" "s\<lparr>polls := polls s + 1\<rparr>"]
  by simp

lemma status_loop_shape:
  "\<exists>p sl ec. snd (snd (status_loop env passes fin rd s)) = s\<lparr>polls := p, sleeps := sl, error_state_calls := ec\<rparr>"
proof (induction env passes fin rd s rule: status_loop.induct)
  case (1 env passes finished reading s)
  show ?case
  proof (cases "passes > 0")
    case False
    have "s = s\<lparr>polls := polls s, sleeps := sleeps s, error_state_calls := error_state_calls s\<rparr>" by simp
    moreover have "snd (snd (status_loop env passes finished reading s)) = s"
      using False by (subst status_loop.simps) simp
    ultimately show ?thesis by metis
  next
    case True
    define snap where "snap = detailed_reads env (polls s)"
    define f1 where "f1 = fold (\<lambda>num_events fin. if num_events > 0 then False else fin) (map snd (queued_events snap)) finished"
    define f2 where "f2 = fold (\<lambda>num_tasks fin. if num_tasks > 0 then False else fin) (map snd (queued_tasks snap)) f1"
    define f3 where "f3 = fold (\<lambda>m fin. if running (module_status snap (mname m)) then False else fin) (modules env) f2"
    obtain ec where ps: "pass_state env s = s\<lparr>polls := polls s + 1, error_state_calls := ec\<rparr>"
      using pass_state_shape by blast
    have unf: "status_loop env passes finished reading s =
       (if f3 \<and> passes - 1 > 0
        then status_loop env (passes - 1) f3 (Some snap) ((pass_state env s)\<lparr>sleeps := sleeps (pass_state env s) + 1\<rparr>)
        else (f3, Some snap, pass_state env s))"
      using True
      by (subst status_loop.simps) (simp add: Let_def snap_def f1_def f2_def f3_def pass_state_def)
    show ?thesis
    proof (cases "f3 \<and> passes - 1 > 0")
      case False
      then have "snd (snd (status_loop env passes finished reading s)) = s\<lparr>polls := polls s + 1, sleeps := sleeps s, error_state_calls := ec\<rparr>"
        using unf ps by auto
      then show ?thesis by blast
    next
      case c: True
      have "\<exists>p sl ec. snd (snd (status_loop env (passes - 1) f3 (Some snap) ((pass_state env s)\<lparr>sleeps := sleeps (pass_state env s) + 1\<rparr>)))
          = ((pass_state env s)\<lparr>sleeps := sleeps (pass_state env s) + 1\<rparr>)\<lparr>polls := p, sleeps := sl, error_state_calls := ec\<rparr>"
        using "1.IH" [OF True, of snap "s\<lparr>polls := polls s + 1\<rparr>" f1 f2 f3 _ "passes - 1"] c
        unfolding snap_def f1_def f2_def f3_def pass_state_def by simp
      then obtain p sl ec' where "snd (snd (status_loop env (passes - 1) f3 (Some snap) ((pass_state env s)\<lparr>sleeps := sleeps (pass_state env s) + 1\<rparr>)))
          = ((pass_state env s)\<lparr>sleeps := sleeps (pass_state env s) + 1\<rparr>)\<lparr>polls := p, sleeps := sl, error_state_calls := ec'\<rparr>"
        by blast
      then have "snd (snd (status_loop env passes finished reading s)) = s\<lparr>polls := p, sleeps := sl, error_state_calls := ec'\<rparr>"
        using unf c ps by simp
      then show ?thesis by blast
    qed
  qed
qed

lemma modules_status_shape:
  "\<exists>p sl ec. snd (snd (modules_status env lg passes s)) = s\<lparr>polls := p, sleeps := sl, error_state_calls := ec\<rparr>"
  unfolding modules_status_def Let_def by (rule status_loop_shape)


lemma distribute_loop_step:
  "(\<exists>x. distribute_loop env r dup (m # ms) recorded s = (Some x, s))
   \<or> (\<exists>rc d0 sp0. distribute_loop env r dup (m # ms) recorded s
          = distribute_loop env r dup ms rc (s\<lparr>delivered := d0, stats_produced := sp0\<rparr>))"
proof (cases "queue_event_raises m")
  case (Some x)
  have stay: "s = s\<lparr>delivered := delivered s, stats_produced := stats_produced s\<rparr>" by simp
  have "distribute_loop env r dup (m # ms) recorded s = (Some x, s)
        \<or> distribute_loop env r dup (m # ms) recorded s = distribute_loop env r dup ms recorded s"
    using Some by (simp add: Let_def)
  then show ?thesis using stay by metis
next
  case None
  have "distribute_loop env r dup (m # ms) recorded s = distribute_loop env r dup ms recorded s
      \<or> distribute_loop env r dup (m # ms) recorded s
           = distribute_loop env r dup ms recorded (s\<lparr>delivered := delivered s @ [(mname m, ItemEvent r)]\<rparr>)
      \<or> distribute_loop env r dup (m # ms) recorded s
           = distribute_loop env r dup ms True
               (s\<lparr>delivered := delivered s @ [(mname m, ItemEvent r)], stats_produced := stats_produced s @ [r]\<rparr>)"
    using None by (simp add: Let_def)
  moreover have "s = s\<lparr>delivered := delivered s, stats_produced := stats_produced s\<rparr>" by simp
  moreover have "s\<lparr>delivered := delivered s @ [(mname m, ItemEvent r)]\<rparr>
       = s\<lparr>delivered := delivered s @ [(mname m, ItemEvent r)], stats_produced := stats_produced s\<rparr>" by simp
  ultimately show ?thesis by metis
qed

lemma distribute_loop_shape:
  "\<exists>d sp. snd (distribute_loop env r dup ms recorded s) = s\<lparr>delivered := d, stats_produced := sp\<rparr>"
proof (induction ms arbitrary: recorded s)
  case Nil
  have "s = s\<lparr>delivered := delivered s, stats_produced := stats_produced s\<rparr>" by simp
  then show ?case by (metis distribute_loop.simps(1) snd_conv)
next
  case (Cons m ms)
  from distribute_loop_step [of env r dup m ms recorded s]
  show ?case
  proof
    assume "\<exists>x. distribute_loop env r dup (m # ms) recorded s = (Some x, s)"
    then obtain x where "distribute_loop env r dup (m # ms) recorded s = (Some x, s)" by blast
    moreover have "s = s\<lparr>delivered := delivered s, stats_produced := stats_produced s\<rparr>" by simp
    ultimately show ?thesis by (metis snd_conv)
  next
    assume "\<exists>rc d0 sp0. distribute_loop env r dup (m # ms) recorded s
          = distribute_loop env r dup ms rc (s\<lparr>delivered := d0, stats_produced := sp0\<rparr>)"
    then obtain rc d0 sp0 where eq: "distribute_loop env r dup (m # ms) recorded s
          = distribute_loop env r dup ms rc (s\<lparr>delivered := d0, stats_produced := sp0\<rparr>)" by blast
    from Cons [where recorded = rc and s = "s\<lparr>delivered := d0, stats_produced := sp0\<rparr>"]
    obtain d sp where "snd (distribute_loop env r dup ms rc (s\<lparr>delivered := d0, stats_produced := sp0\<rparr>))
        = s\<lparr>delivered := d0, stats_produced := sp0\<rparr>\<lparr>delivered := d, stats_produced := sp\<rparr>" by blast
    then have "snd (distribute_loop env r dup (m # ms) recorded s) = s\<lparr>delivered := d, stats_produced := sp\<rparr>"
      using eq by simp
    then show ?thesis by blast
  qed
qed

lemma distribute_event_shape:
  "\<exists>ed ab d sp. snd (distribute_event env s r)
      = s\<lparr>events_distributed := ed, absorbed := ab, delivered := d, stats_produced := sp\<rparr>"
proof -
  define s2 where "s2 = (let event = heap s r;
          event_hash = py_hash env (PyEvent (etype event) (data event));
          dup = (event_hash \<in> events_distributed s);
          s1 = (if dup then s
                else s\<lparr>events_distributed := insert event_hash (events_distributed s)\<rparr>)
      in (if \<not> dup \<and> -1 < scope_distance event \<and> scope_distance event < 1
                then s1\<lparr>absorbed := absorbed s1 @ [r]\<rparr> else s1))"
  have s2: "s2 = s\<lparr>events_distributed := events_distributed s2, absorbed := absorbed s2\<rparr>"
    by (simp add: s2_def Let_def)
  obtain dup where eq: "distribute_event env s r = distribute_loop env r dup (modules env) False s2"
    by (simp add: distribute_event_def s2_def Let_def)
  obtain d sp where "snd (distribute_loop env r dup (modules env) False s2) = s2\<lparr>delivered := d, stats_produced := sp\<rparr>"
    using distribute_loop_shape by blast
  then have "snd (distribute_event env s r)
     = s\<lparr>events_distributed := events_distributed s2, absorbed := absorbed s2, delivered := d, stats_produced := sp\<rparr>"
    using eq s2 by (metis)
  then show ?thesis by blast
qed

lemma broadcast_finished_shape:
  "\<exists>d. snd (broadcast_finished ms s) = s\<lparr>delivered := d\<rparr>"
proof (induction ms arbitrary: s)
  case Nil
  have "s = s\<lparr>delivered := delivered s\<rparr>" by simp
  then show ?case by (metis broadcast_finished.simps(1) snd_conv)
next
  case (Cons m ms)
  show ?case
  proof (cases "queue_event_raises m")
    case None
    then show ?thesis
      using Cons [of "s\<lparr>delivered := delivered s @ [(mname m, ItemStr ''FINISHED'')]\<rparr>"] by simp
  next
    case (Some x)
    have "s = s\<lparr>delivered := delivered s\<rparr>" by simp
    then show ?thesis using Some by (metis broadcast_finished.simps(2) option.simps(5) snd_conv)
  qed
qed


lemma catch_report:
  "\<exists>tail sc. catch env True (\<lambda>st. Some (x, st\<lparr>reported := reported st @ [n]\<rparr>)) True None s
     = Some (None, s\<lparr>clock := clock s + 1, reported := reported s @ [n], logged := logged s @ tail,
                      stop_calls := sc, stats_function_called := stats_function_called s + 1\<rparr>)"
proof (cases x)
  case None
  have "catch env True (\<lambda>st. Some (x, st\<lparr>reported := reported st @ [n]\<rparr>)) True None s
     = Some (None, s\<lparr>clock := clock s + 1, reported := reported s @ [n], logged := logged s @ [],
                      stop_calls := stop_calls s, stats_function_called := stats_function_called s + 1\<rparr>)"
    using None by (simp add: catch_def Let_def)
  then show ?thesis by blast
next
  case (Some e)
  have "catch env True (\<lambda>st. Some (x, st\<lparr>reported := reported st @ [n]\<rparr>)) True None s
     = Some (None, s\<lparr>clock := clock s + 1, reported := reported s @ [n],
                      logged := logged s @ (if e \<in> {ScanCancelledError, BrokenPipeError, KeyboardInterrupt} then [] else [Error]),
                      stop_calls := (if e = KeyboardInterrupt then stop_calls s + 1 else stop_calls s),
                      stats_function_called := stats_function_called s + 1\<rparr>)"
    using Some by (cases e) (simp_all add: catch_def Let_def)
  then show ?thesis by blast
qed

lemma run_reports_result:
  "\<exists>s' tail. run_reports env ms s = Some (None, s')
      \<and> reported s' = reported s @ map mname ms
      \<and> stats_function_called s' = stats_function_called s + length ms
      \<and> delivered s' = delivered s \<and> event_queue s' = event_queue s \<and> status s' = status s
      \<and> logged s' = logged s @ tail"
proof (induction ms arbitrary: s)
  case Nil
  then show ?case by simp
next
  case (Cons m ms)
  obtain tail0 sc where c: "catch env True (\<lambda>st. Some (report_raises m, st\<lparr>reported := reported st @ [mname m]\<rparr>)) True None s
     = Some (None, s\<lparr>clock := clock s + 1, reported := reported s @ [mname m], logged := logged s @ tail0,
                      stop_calls := sc, stats_function_called := stats_function_called s + 1\<rparr>)"
    using catch_report by blast
  define s1 where "s1 = s\<lparr>clock := clock s + 1, reported := reported s @ [mname m], logged := logged s @ tail0,
                      stop_calls := sc, stats_function_called := stats_function_called s + 1\<rparr>"
  from Cons [of s1] obtain s' tail where r: "run_reports env ms s1 = Some (None, s')"
      and f1: "reported s' = reported s1 @ map mname ms"
      and f2: "stats_function_called s' = stats_function_called s1 + length ms"
      and f3: "delivered s' = delivered s1" and f4: "event_queue s' = event_queue s1"
      and f5: "status s' = status s1"
      and f6: "logged s' = logged s1 @ tail"
    by blast
  have run: "run_reports env (m # ms) s = Some (None, s')"
    using c r by (simp add: s1_def)
  have g1: "reported s' = reported s @ map mname (m # ms)" using f1 by (simp add: s1_def)
  have g2: "stats_function_called s' = stats_function_called s + length (m # ms)" using f2 by (simp add: s1_def)
  have g3: "delivered s' = delivered s" using f3 by (simp add: s1_def)
  have g4: "event_queue s' = event_queue s" using f4 by (simp add: s1_def)
  have g5: "status s' = status s" using f5 by (simp add: s1_def)
  have g6: "logged s' = logged s @ (tail0 @ tail)" using f6 by (simp add: s1_def)
  show ?case using run g1 g2 g3 g4 g5 g6 by blast
qed


lemma modules_status_frame:
  "reported (snd (snd (modules_status env lg passes s))) = reported s
   \<and> stats_function_called (snd (snd (modules_status env lg passes s))) = stats_function_called s
   \<and> delivered (snd (snd (modules_status env lg passes s))) = delivered s
   \<and> status (snd (snd (modules_status env lg passes s))) = status s
   \<and> event_queue (snd (snd (modules_status env lg passes s))) = event_queue s
   \<and> logged (snd (snd (modules_status env lg passes s))) = logged s"
proof -
  obtain p sl ec where "snd (snd (modules_status env lg passes s)) = s\<lparr>polls := p, sleeps := sl, error_state_calls := ec\<rparr>"
    using modules_status_shape by blast
  then show ?thesis by simp
qed

lemma distribute_event_frame:
  "reported (snd (distribute_event env s r)) = reported s
   \<and> stats_function_called (snd (distribute_event env s r)) = stats_function_called s
   \<and> event_queue (snd (distribute_event env s r)) = event_queue s
   \<and> status (snd (distribute_event env s r)) = status s
   \<and> logged (snd (distribute_event env s r)) = logged s"
proof -
  obtain ed ab d sp where "snd (distribute_event env s r)
      = s\<lparr>events_distributed := ed, absorbed := ab, delivered := d, stats_produced := sp\<rparr>"
    using distribute_event_shape by blast
  then show ?thesis by simp
qed

lemma broadcast_finished_frame:
  "reported (snd (broadcast_finished ms s)) = reported s
   \<and> stats_function_called (snd (broadcast_finished ms s)) = stats_function_called s"
proof -
  obtain d where "snd (broadcast_finished ms s) = s\<lparr>delivered := d\<rparr>"
    using broadcast_finished_shape by blast
  then show ?thesis by simp
qed

lemma before_get_frame:
  "reported (before_get env t s) = reported s
   \<and> stats_function_called (before_get env t s) = stats_function_called s"
  by (cases "python_events t") (simp_all add: before_get_def Let_def modules_status_frame)

lemma on_queue_empty_frame:
  "reported (ctl_state (on_queue_empty env c ec s)) = reported s
   \<and> stats_function_called (ctl_state (on_queue_empty env c ec s)) = stats_function_called s"
proof -
  obtain fin rd s5 where ms: "modules_status env False None s = (fin, rd, s5)"
    by (metis prod_cases3)
  have f5: "reported s5 = reported s" "stats_function_called s5 = stats_function_called s"
    using modules_status_frame [of env False None s] ms by simp_all
  show ?thesis
  proof (cases fin)
    case True
    then show ?thesis using ms f5 by (simp add: on_queue_empty_def)
  next
    case False
    then show ?thesis using ms f5 by (simp add: on_queue_empty_def)
  qed
qed

lemma driver_step_frame:
  "reported (ctl_state (driver_step env t c ec s)) = reported s
   \<and> stats_function_called (ctl_state (driver_step env t c ec s)) = stats_function_called s"
proof -
  define s1 where "s1 = apply_ext_status t s"
  have f1: "reported s1 = reported s" "stats_function_called s1 = stats_function_called s"
    by (simp_all add: s1_def apply_ext_status_def split: option.splits)
  show ?thesis
  proof (cases "status s1 = ''ABORTING''")
    case True
    then show ?thesis using f1 by (simp add: driver_step_def Let_def s1_def [symmetric])
  next
    case False
    define s4 where "s4 = before_get env t s1"
    have f4: "reported s4 = reported s" "stats_function_called s4 = stats_function_called s"
      using before_get_frame [of env t s1] f1 by (simp_all add: s4_def)
    show ?thesis
    proof (cases "event_queue s4")
      case Nil
      then have "driver_step env t c ec s = on_queue_empty env c ec s4"
        using False by (simp add: driver_step_def Let_def s1_def [symmetric] s4_def [symmetric])
      then show ?thesis using on_queue_empty_frame [of env c ec s4] f4 by simp
    next
      case (Cons event q)
      obtain exc s5 where d: "distribute_event env (s4\<lparr>event_queue := q\<rparr>) event = (exc, s5)"
        by (metis surj_pair)
      have f5: "reported s5 = reported s" "stats_function_called s5 = stats_function_called s"
        using distribute_event_frame [of env "s4\<lparr>event_queue := q\<rparr>" event] d f4 by simp_all
      have "ctl_state (driver_step env t c ec s) = s5"
        using False Cons d
        by (cases exc) (simp_all add: driver_step_def Let_def s1_def [symmetric] s4_def [symmetric])
      then show ?thesis using f5 by simp
    qed
  qed
qed

lemma driver_loop_frame:
  "driver_loop env ticks c ec s = Some (exc, s') \<Longrightarrow>
     reported s' = reported s \<and> stats_function_called s' = stats_function_called s"
proof (induction ticks arbitrary: c ec s)
  case Nil
  then show ?case by simp
next
  case (Cons t ticks)
  show ?case
  proof (cases "driver_step env t c ec s")
    case (Break s1)
    then show ?thesis using Cons.prems driver_step_frame [of env t c ec s] by simp
  next
    case (Raised x s1)
    then show ?thesis using Cons.prems driver_step_frame [of env t c ec s] by simp
  next
    case (Continue c1 e1 s1)
    then have "driver_loop env ticks c1 e1 s1 = Some (exc, s')" using Cons.prems by simp
    then have "reported s' = reported s1 \<and> stats_function_called s' = stats_function_called s1"
      by (rule Cons.IH)
    then show ?thesis using Continue driver_step_frame [of env t c ec s] by simp
  qed
qed


lemma on_queue_empty_finished:
  "fst (modules_status env False None s) \<Longrightarrow>
     on_queue_empty env c ec s = Break (snd (snd (modules_status env False None s)))"
  by (cases "modules_status env False None s") (simp add: on_queue_empty_def)

lemma driver_loop_append:
  "driver_iterations env before c ec s = Some (c1, ec1, s1) \<Longrightarrow>
     driver_loop env (before @ ts) c ec s = driver_loop env ts c1 ec1 s1"
proof (induction before arbitrary: c ec s)
  case Nil
  then show ?case by simp
next
  case (Cons t before)
  show ?case
  proof (cases "driver_step env t c ec s")
    case (Break s2)
    then show ?thesis using Cons.prems by simp
  next
    case (Raised x s2)
    then show ?thesis using Cons.prems by simp
  next
    case (Continue c2 ec2 s2)
    then have "driver_iterations env before c2 ec2 s2 = Some (c1, ec1, s1)" using Cons.prems by simp
    then have "driver_loop env (before @ ts) c2 ec2 s2 = driver_loop env ts c1 ec1 s1" by (rule Cons.IH)
    then show ?thesis using Continue by simp
  qed
qed

text \<open>
  Claim C10. First part: in whatever iteration of the loop it happens (after any number of
  iterations that went round, with whatever values of \<open>counter\<close> and \<open>event_counter\<close>),
  when the event taken from the central queue makes \<open>distribute_event\<close> raise an
  exception other than \<open>KeyboardInterrupt\<close>, the loop ends at once, whatever iterations
  would follow: the exception is logged at level critical, the events still on the queue
  stay there and nothing more is delivered. Second part: whenever \<open>loop_until_finished\<close>
  ends (the loop broke, the scan was aborting, the start hook or the loop raised), the
  report hook of every registered module has been called exactly once, in the order of the
  registry, each through \<open>catch\<close> with \<open>_force\<close> (one call of the statistics sink per
  module), whatever the hooks raise and whatever \<open>scan.stopping\<close> reads; no exception
  leaves. The exceptions are those of \<open>exn\<close>: the classes under \<open>Exception\<close> and
  \<open>KeyboardInterrupt\<close>.
\<close>

theorem loop_until_finished_reports:
  "(on_start_raises env = None
      \<and> driver_iterations env before 0 0 s = Some (counter, event_counter, s1)
      \<and> status (apply_ext_status t s1) \<noteq> ''ABORTING''
      \<and> event_queue (before_get env t (apply_ext_status t s1)) = event # q
      \<and> distribute_event env ((before_get env t (apply_ext_status t s1))\<lparr>event_queue := q\<rparr>) event = (Some x, s5)
      \<and> x \<noteq> KeyboardInterrupt
    \<longrightarrow> (\<exists>s' tail. loop_until_finished env (before @ t # ts) s = Some (None, s')
          \<and> logged s' = logged s5 @ Critical # tail
          \<and> delivered s' = delivered s5 \<and> event_queue s' = q
          \<and> reported s' = reported s @ map mname (modules env)))
   \<and> (loop_until_finished env ticks s \<noteq> None
    \<longrightarrow> (\<exists>s'. loop_until_finished env ticks s = Some (None, s')
          \<and> reported s' = reported s @ map mname (modules env)
          \<and> stats_function_called s' = stats_function_called s + length (modules env)))"
proof (rule conjI; rule impI)
  assume a: "on_start_raises env = None
      \<and> driver_iterations env before 0 0 s = Some (counter, event_counter, s1)
      \<and> status (apply_ext_status t s1) \<noteq> ''ABORTING''
      \<and> event_queue (before_get env t (apply_ext_status t s1)) = event # q
      \<and> distribute_event env ((before_get env t (apply_ext_status t s1))\<lparr>event_queue := q\<rparr>) event = (Some x, s5)
      \<and> x \<noteq> KeyboardInterrupt"
  then have step: "driver_step env t counter event_counter s1 = Raised x s5"
    by (simp add: driver_step_def Let_def)
  then have "driver_loop env (t # ts) counter event_counter s1 = Some (Some x, s5)" by simp
  moreover have "driver_loop env (before @ t # ts) 0 0 s = driver_loop env (t # ts) counter event_counter s1"
    using a driver_loop_append [of env before 0 0 s counter event_counter s1 "t # ts"] by simp
  ultimately have loop: "driver_loop env (before @ t # ts) 0 0 s = Some (Some x, s5)" by simp
  have f5: "reported s5 = reported s"
    using driver_loop_frame [OF loop] by simp
  have q5: "event_queue s5 = q"
    using distribute_event_frame [of env "(before_get env t (apply_ext_status t s1))\<lparr>event_queue := q\<rparr>" event] a
    by simp
  define s2 where "s2 = s5\<lparr>logged := logged s5 @ [Critical]\<rparr>"
  have l: "loop_until_finished env (before @ t # ts) s = run_reports env (modules env) s2"
    using a loop by (cases x) (simp_all add: loop_until_finished_def s2_def)
  obtain s' tail where r: "run_reports env (modules env) s2 = Some (None, s')"
      and g1: "reported s' = reported s2 @ map mname (modules env)"
      and g3: "delivered s' = delivered s2" and g4: "event_queue s' = event_queue s2"
      and g6: "logged s' = logged s2 @ tail"
    using run_reports_result [of env "modules env" s2] by blast
  have "loop_until_finished env (before @ t # ts) s = Some (None, s')" using l r by simp
  moreover have "logged s' = logged s5 @ Critical # tail" using g6 by (simp add: s2_def)
  moreover have "delivered s' = delivered s5" using g3 by (simp add: s2_def)
  moreover have "event_queue s' = q" using g4 q5 by (simp add: s2_def)
  moreover have "reported s' = reported s @ map mname (modules env)" using g1 f5 by (simp add: s2_def)
  ultimately show "\<exists>s' tail. loop_until_finished env (before @ t # ts) s = Some (None, s')
          \<and> logged s' = logged s5 @ Critical # tail
          \<and> delivered s' = delivered s5 \<and> event_queue s' = q
          \<and> reported s' = reported s @ map mname (modules env)" by blast
next
  assume b: "loop_until_finished env ticks s \<noteq> None"
  define res where "res = (case on_start_raises env of
              Some x \<Rightarrow> Some (Some x, s)
            | None \<Rightarrow> driver_loop env ticks 0 0 s)"
  from b obtain exc s1 where res: "res = Some (exc, s1)"
    by (cases res) (auto simp: loop_until_finished_def res_def)
  have f1: "reported s1 = reported s \<and> stats_function_called s1 = stats_function_called s"
  proof (cases "on_start_raises env")
    case None
    then show ?thesis using res driver_loop_frame [of env ticks 0 0 s exc s1] by (simp add: res_def)
  next
    case (Some x)
    then show ?thesis using res by (simp add: res_def)
  qed
  define s2 where "s2 = (case exc of
                       None \<Rightarrow> s1
                     | Some KeyboardInterrupt \<Rightarrow> s1\<lparr>stop_calls := stop_calls s1 + 1\<rparr>
                     | Some _ \<Rightarrow> s1\<lparr>logged := logged s1 @ [Critical]\<rparr>)"
  have f2: "reported s2 = reported s \<and> stats_function_called s2 = stats_function_called s"
    using f1 by (simp add: s2_def split: option.splits exn.splits)
  have l: "loop_until_finished env ticks s = run_reports env (modules env) s2"
    using res by (simp add: loop_until_finished_def res_def [symmetric] s2_def)
  obtain s' where r: "run_reports env (modules env) s2 = Some (None, s')"
      and g1: "reported s' = reported s2 @ map mname (modules env)"
      and g2: "stats_function_called s' = stats_function_called s2 + length (modules env)"
    using run_reports_result [of env "modules env" s2] by blast
  show "\<exists>s'. loop_until_finished env ticks s = Some (None, s')
          \<and> reported s' = reported s @ map mname (modules env)
          \<and> stats_function_called s' = stats_function_called s + length (modules env)"
    using l r g1 g2 f2 by simp
qed

theorem loop_until_finished_reports_witness:
  "\<exists>s' tail. loop_until_finished ex_env_failing [ex_tick [5], ex_tick [1, 2], ex_tick []] ex_state_dns = Some (None, s')
      \<and> logged s' = Critical # tail
      \<and> delivered s' = [(''sslcert'', ItemEvent 1)]
      \<and> event_queue s' = [2]
      \<and> reported s' = [''sslcert'', ''human'']
      \<and> stats_function_called s' = 2"
proof -
  define s1 where "s1 = ex_state_dns\<lparr>events_distributed := {PyEvent ''DNS_NAME'' ''www.example.com''}\<rparr>"
  define s4 where "s4 = (before_get ex_env_failing (ex_tick [1, 2]) (apply_ext_status (ex_tick [1, 2]) s1))"
  define s5 where "s5 = snd (distribute_event ex_env_failing (s4\<lparr>event_queue := [2]\<rparr>) 1)"
  have mods: "modules ex_env_failing = [ex_scan_module\<lparr>report_raises := Some OtherException\<rparr>,
      ex_output_module\<lparr>queue_event_raises := Some OtherException\<rparr>]"
    by (simp add: ex_env_failing_def)
  have d0: "distribute_event ex_env_failing (ex_state_dns\<lparr>event_queue := []\<rparr>) 5 = (None, s1)"
    by (simp add: distribute_event_def Let_def mods ex_env_failing_def ex_env_def s1_def
          ex_scan_module_def ex_output_module_def ex_state_dns_def ex_state_def ex_dns_event_def ex_event_def)
  have step0: "driver_step ex_env_failing (ex_tick [5]) 0 0 ex_state_dns = Continue 0 1 s1"
    using d0 by (simp add: driver_step_def Let_def before_get_def apply_ext_status_def ex_tick_def
          ex_state_dns_def ex_state_def)
  have it: "driver_iterations ex_env_failing [ex_tick [5]] 0 0 ex_state_dns = Some (0, 1, s1)"
    using step0 by simp
  have s4: "s4 = s1\<lparr>event_queue := [1, 2]\<rparr>"
    by (simp add: s4_def s1_def before_get_def apply_ext_status_def ex_tick_def Let_def
          ex_state_dns_def ex_state_def)
  have d: "distribute_event ex_env_failing (s4\<lparr>event_queue := [2]\<rparr>) 1 = (Some OtherException, s5)"
    and dl: "delivered s5 = [(''sslcert'', ItemEvent 1)]" and lg: "logged s5 = []"
    unfolding s5_def s4 s1_def
    by (simp_all add: distribute_event_def Let_def mods ex_env_failing_def ex_env_def
          ex_scan_module_def ex_output_module_def ex_state_dns_def ex_state_def ex_heap_def ex_event_def)
  have hyp: "on_start_raises ex_env_failing = None
      \<and> driver_iterations ex_env_failing [ex_tick [5]] 0 0 ex_state_dns = Some (0, 1, s1)
      \<and> status (apply_ext_status (ex_tick [1, 2]) s1) \<noteq> ''ABORTING''
      \<and> event_queue (before_get ex_env_failing (ex_tick [1, 2]) (apply_ext_status (ex_tick [1, 2]) s1)) = 1 # [2]
      \<and> distribute_event ex_env_failing ((before_get ex_env_failing (ex_tick [1, 2]) (apply_ext_status (ex_tick [1, 2]) s1))\<lparr>event_queue := [2]\<rparr>) 1 = (Some OtherException, s5)
      \<and> OtherException \<noteq> KeyboardInterrupt"
    using d s4 it unfolding s4_def [symmetric]
    by (simp add: ex_env_failing_def ex_env_def apply_ext_status_def ex_tick_def s1_def
          ex_state_dns_def ex_state_def)
  from loop_until_finished_reports [of ex_env_failing "[ex_tick [5]]" ex_state_dns 0 1 s1 "ex_tick [1, 2]" 1 "[2]"
         OtherException s5 "[ex_tick []]" "[ex_tick [5], ex_tick [1, 2], ex_tick []]", THEN conjunct1, rule_format, OF hyp]
  obtain s' tail where a: "loop_until_finished ex_env_failing [ex_tick [5], ex_tick [1, 2], ex_tick []] ex_state_dns = Some (None, s')"
     and a2: "logged s' = logged s5 @ Critical # tail" and a3: "delivered s' = delivered s5"
     and a4: "event_queue s' = [2]"
     and a5: "reported s' = reported ex_state_dns @ map mname (modules ex_env_failing)" by auto
  from loop_until_finished_reports [of ex_env_failing "[ex_tick [5]]" ex_state_dns 0 1 s1 "ex_tick [1, 2]" 1 "[2]"
         OtherException s5 "[ex_tick []]" "[ex_tick [5], ex_tick [1, 2], ex_tick []]", THEN conjunct2, rule_format]
  have a6: "stats_function_called s' = stats_function_called ex_state_dns + length (modules ex_env_failing)"
    using a by auto
  have "logged s' = Critical # tail" using a2 lg by simp
  moreover have "delivered s' = [(''sslcert'', ItemEvent 1)]" using a3 dl by simp
  moreover have "reported s' = [''sslcert'', ''human'']"
    using a5 by (simp add: mods ex_state_dns_def ex_state_def ex_scan_module_def ex_output_module_def)
  moreover have "stats_function_called s' = 2" using a6 by (simp add: mods ex_state_dns_def ex_state_def)
  ultimately show ?thesis using a a4 by blast
qed

text \<open>
  Claim C3. The source tests \<open>finished\<close> twice in the handler of \<open>queue.Empty\<close>:
  the first test leaves the loop, so the second, under which the status would become
  \<open>"FINISHING"\<close> and \<open>"FINISHED"\<close> would go to every module, is never reached. Here
  the loop takes one event from the queue and distributes it, then finds the queue empty
  and the scan finished (five quiet readings): \<open>event_counter\<close> is 1, and the loop ends
  with the status still \<open>"RUNNING"\<close> and with no \<open>"FINISHED"\<close> among the deliveries.
\<close>

theorem loop_until_finished_breaks_without_sentinel:
  "\<exists>s'. loop_until_finished ex_env [ex_tick [1], ex_tick []] ((ex_state ex_heap)\<lparr>polls := 3\<rparr>) = Some (None, s')
      \<and> status s' = ''RUNNING''
      \<and> delivered s' = [(''sslcert'', ItemEvent 1), (''human'', ItemEvent 1)]"
proof -
  define s0 where "s0 = (ex_state ex_heap)\<lparr>polls := 3\<rparr>"
  define s5 where "s5 = snd (distribute_event ex_env (s0\<lparr>event_queue := []\<rparr>) 1)"
  have mods: "modules ex_env = [ex_scan_module, ex_output_module]" by (simp add: ex_env_def)
  have d: "distribute_event ex_env (s0\<lparr>event_queue := []\<rparr>) 1 = (None, s5)"
    and dl: "delivered s5 = [(''sslcert'', ItemEvent 1), (''human'', ItemEvent 1)]"
    and st: "status s5 = ''RUNNING''" and q5: "event_queue s5 = []" and p5: "polls s5 = 3"
    unfolding s5_def s0_def
    by (simp_all add: distribute_event_def Let_def mods ex_env_def
          ex_scan_module_def ex_output_module_def ex_state_def ex_heap_def ex_event_def)
  have step1: "driver_step ex_env (ex_tick [1]) 0 0 s0 = Continue 0 1 s5"
    using d by (simp add: driver_step_def Let_def before_get_def apply_ext_status_def ex_tick_def
          s0_def ex_state_def)
  have idle: "scan_idle ex_env (detailed_reads ex_env i) = (i \<noteq> 2)" for i
    by (simp add: scan_idle_def ex_env_def ex_idle_def ex_busy_def ex_mod_status_def
          ex_scan_module_def ex_output_module_def)
  have fin: "fst (modules_status ex_env False None s5)"
    using status_loop_all_idle [of 5 ex_env s5 None] p5
    by (simp add: modules_status_def idle)
  define s6 where "s6 = snd (snd (modules_status ex_env False None s5))"
  have f6: "status s6 = ''RUNNING''" "delivered s6 = [(''sslcert'', ItemEvent 1), (''human'', ItemEvent 1)]"
    using modules_status_frame [of ex_env False None s5] st dl by (simp_all add: s6_def)
  have step2: "driver_step ex_env (ex_tick []) 0 (Suc 0) s5 = Break s6"
    using on_queue_empty_finished [OF fin, of 0 "Suc 0"] q5 st
    by (simp add: driver_step_def Let_def before_get_def apply_ext_status_def ex_tick_def s6_def)
  have loop: "driver_loop ex_env [ex_tick [1], ex_tick []] 0 0 s0 = Some (None, s6)"
    using step1 step2 by simp
  have l: "loop_until_finished ex_env [ex_tick [1], ex_tick []] s0 = run_reports ex_env (modules ex_env) s6"
    using loop by (simp add: loop_until_finished_def ex_env_def)
  obtain s' where "run_reports ex_env (modules ex_env) s6 = Some (None, s')"
      and "delivered s' = delivered s6" and "status s' = status s6"
    using run_reports_result [of ex_env "modules ex_env" s6] by blast
  then show ?thesis using l f6 unfolding s0_def by simp
qed

section \<open>Properties of the event pipeline\<close>

lemma keeps_refl: "keeps r s s"
  by (simp add: keeps_def)

lemma keeps_trans: "keeps r s s1 \<Longrightarrow> keeps r s1 s2 \<Longrightarrow> keeps r s s2"
  by (simp add: keeps_def)

lemma precheck_state:
  "snd (priv_event_precheck env s r) = s
   \<or> snd (priv_event_precheck env s r) = s\<lparr>logged := logged s @ [Warning]\<rparr>"
  by (simp add: priv_event_precheck_def Let_def)

lemma precheck_ok_state: "fst (priv_event_precheck env s r) \<Longrightarrow> snd (priv_event_precheck env s r) = s"
  by (simp add: priv_event_precheck_def Let_def split: if_splits)

lemma upd_event_other: "c \<noteq> r \<Longrightarrow> heap (upd_event c f s) r = heap s r"
  by (simp add: upd_event_def)

lemma upd_event_fields:
  "next_ref (upd_event c f s) = next_ref s" "event_queue (upd_event c f s) = event_queue s"
  "stats_emitted (upd_event c f s) = stats_emitted s" "submitted (upd_event c f s) = submitted s"
  "logged (upd_event c f s) = logged s" "events_accepted (upd_event c f s) = events_accepted s"
  "clock (upd_event c f s) = clock s"
  by (simp_all add: upd_event_def)

lemma release_set_other:
  "c \<noteq> r \<Longrightarrow> heap (set_resolved c (release_semaphore c s)) r = heap s r"
  by (simp add: set_resolved_def release_semaphore_def upd_event_other)

lemma release_set_fields:
  "next_ref (set_resolved c (release_semaphore c s)) = next_ref s"
  "event_queue (set_resolved c (release_semaphore c s)) = event_queue s"
  "stats_emitted (set_resolved c (release_semaphore c s)) = stats_emitted s"
  "submitted (set_resolved c (release_semaphore c s)) = submitted s"
  "logged (set_resolved c (release_semaphore c s)) = logged s"
  by (simp_all add: set_resolved_def release_semaphore_def upd_event_fields)

lemma release_set_same:
  "released (heap (set_resolved r (release_semaphore r s)) r) = released (heap s r) + 1"
  "resolved (heap (set_resolved r (release_semaphore r s)) r)"
  by (simp_all add: set_resolved_def release_semaphore_def upd_event_def)

lemma queue_event_state:
  "snd (queue_event env s r) = s
   \<or> (fst (queue_event env s r) = None \<and> make_event_same env (heap s r) = None
      \<and> (\<exists>qt. snd (queue_event env s r) = s\<lparr>queued_event_types := qt, event_queue := event_queue s @ [r]\<rparr>))"
proof (cases "make_event_same env (heap s r)")
  case None
  define qt where "qt = (queued_event_types s)(etype (heap s r) \<mapsto>
      (case queued_event_types s (etype (heap s r)) of None \<Rightarrow> 1 | Some k \<Rightarrow> k + 1))"
  have "queue_event env s r = (None, s\<lparr>queued_event_types := qt, event_queue := event_queue s @ [r]\<rparr>)"
    using None by (simp add: queue_event_def Let_def qt_def)
  then show ?thesis using None by auto
next
  case (Some x)
  then show ?thesis by (simp add: queue_event_def)
qed

text \<open>
  \<open>emit_event\<close> without \<open>quick\<close> leaves every other event and the central queue as
  they are.
\<close>

lemma emit_event_keeps:
  assumes "c \<noteq> r" and "\<not> quick opts"
  shows "keeps r s (snd (emit_event env s c opts))"
proof -
  obtain ok s0 where p: "priv_event_precheck env s c = (ok, s0)" by (metis surj_pair)
  have s0: "s0 = s \<or> s0 = s\<lparr>logged := logged s @ [Warning]\<rparr>"
    using precheck_state [of env s c] p by simp
  then have k0: "keeps r s s0" by (auto simp: keeps_def)
  have k1: "keeps r s0 (set_resolved c (release_semaphore c s0))"
    using assms(1) by (simp add: keeps_def release_set_other release_set_fields)
  show ?thesis
  proof (cases ok)
    case False
    then have "snd (emit_event env s c opts) = set_resolved c (release_semaphore c s0)"
      using p by (simp add: emit_event_def)
    then show ?thesis using k0 k1 keeps_trans by metis
  next
    case True
    show ?thesis
    proof (cases "submit_task_raises env")
      case None
      then have "snd (emit_event env s c opts) = s0\<lparr>submitted := submitted s0 @ [(c, opts\<lparr>quick := False\<rparr>)]\<rparr>"
        using p True assms(2) by (simp add: emit_event_def)
      then show ?thesis using k0 by (simp add: keeps_def)
    next
      case (Some e)
      have k2: "keeps r s0 (set_resolved c (release_semaphore c (s0\<lparr>logged := logged s0 @ [Error]\<rparr>)))"
        using assms(1) by (simp add: keeps_def release_set_other release_set_fields)
      have "snd (emit_event env s c opts) = s0
          \<or> snd (emit_event env s c opts) = set_resolved c (release_semaphore c s0)
          \<or> snd (emit_event env s c opts) = set_resolved c (release_semaphore c (s0\<lparr>logged := logged s0 @ [Error]\<rparr>))"
        using p True assms(2) Some by (cases e) (simp_all add: emit_event_def Let_def)
      then show ?thesis using k0 k1 k2 keeps_trans keeps_refl by metis
    qed
  qed
qed

lemma no_opts_not_quick: "\<not> quick no_opts"
  by (simp add: no_opts_def)

lemma alloc_keeps: "r < next_ref s \<Longrightarrow> keeps r s (alloc e s)"
  by (simp add: keeps_def alloc_def)

lemma keeps_next_ref: "keeps r s s' \<Longrightarrow> r < next_ref s \<Longrightarrow> r < next_ref s'"
  by (simp add: keeps_def)

lemma speculate_keeps:
  assumes "r < next_ref s"
  shows "keeps r s (snd (speculate env r s))"
proof (cases "host (heap s r)")
  case None
  then show ?thesis by (simp add: speculate_def keeps_refl)
next
  case (Some h)
  show ?thesis
  proof (cases "etype (heap s r) \<notin> {''DNS_NAME'', ''IP_ADDRESS'', ''IP_RANGE''}")
    case False
    then show ?thesis using Some by (simp add: speculate_def keeps_refl)
  next
    case True
    show ?thesis
    proof (cases "make_event env h ''DNS_NAME'' (make_dummy_module env ''host'' ''internal'') r (heap s r)")
      case (Inl x)
      then show ?thesis using Some True by (simp add: speculate_def Let_def keeps_refl)
    next
      case (Inr made)
      define made2 where "made2 = (if ''target'' \<in> tags (heap s r)
          then made\<lparr>scope_distance := scope_distance (heap s r)\<rparr>\<lparr>tags := insert ''target'' (tags (made\<lparr>scope_distance := scope_distance (heap s r)\<rparr>))\<rparr>
          else made\<lparr>scope_distance := scope_distance (heap s r)\<rparr>)"
      define s1 where "s1 = alloc made2 s"
      have k1: "keeps r s s1" using assms by (simp add: s1_def alloc_keeps)
      have ne: "next_ref s \<noteq> r" using assms by simp
      have k2: "keeps r s1 (snd (emit_event env s1 (next_ref s) no_opts))"
        using emit_event_keeps [OF ne no_opts_not_quick] .
      have "snd (speculate env r s) = s1 \<or> snd (speculate env r s) = snd (emit_event env s1 (next_ref s) no_opts)"
        using Some True Inr
        by (cases "emit_event env s1 (next_ref s) no_opts"; cases "fst (emit_event env s1 (next_ref s) no_opts)")
           (simp_all add: speculate_def Let_def s1_def made2_def)
      then show ?thesis using k1 k2 keeps_trans by metis
    qed
  qed
qed

lemma make_children_keeps:
  "r < next_ref s \<Longrightarrow> list_all (\<lambda>c. c \<noteq> r) acc \<Longrightarrow>
     keeps r s (snd (make_children env src recs acc s))
     \<and> (case fst (make_children env src recs acc s) of
          Inl x \<Rightarrow> True | Inr cs \<Rightarrow> list_all (\<lambda>c. c \<noteq> r) cs)"
proof (induction recs arbitrary: acc s)
  case Nil
  then show ?case by (simp add: keeps_refl)
next
  case (Cons rec recs)
  obtain rcd rdtype where rec: "rec = (rcd, rdtype)" by (metis surj_pair)
  show ?case
  proof (cases "make_event env rcd ''DNS_NAME'' (get_dummy_module env rdtype) src (heap s src)")
    case (Inr child)
    have k1: "keeps r s (alloc child s)" using Cons.prems(1) by (simp add: alloc_keeps)
    have n1: "r < next_ref (alloc child s)" using Cons.prems(1) by (simp add: alloc_def)
    have a1: "list_all (\<lambda>c. c \<noteq> r) (acc @ [next_ref s])" using Cons.prems by simp
    from Cons.IH [OF n1 a1]
    have ih: "keeps r (alloc child s) (snd (make_children env src recs (acc @ [next_ref s]) (alloc child s)))
       \<and> (case fst (make_children env src recs (acc @ [next_ref s]) (alloc child s)) of
            Inl x \<Rightarrow> True | Inr cs \<Rightarrow> list_all (\<lambda>c. c \<noteq> r) cs)" .
    have eq: "make_children env src (rec # recs) acc s
        = make_children env src recs (acc @ [next_ref s]) (alloc child s)"
      using Inr rec by simp
    show ?thesis unfolding eq using ih k1 keeps_trans by metis
  next
    case (Inl x)
    show ?thesis
    proof (cases "x = ValidationError")
      case True
      have k1: "keeps r s (s\<lparr>logged := logged s @ [Warning]\<rparr>)" by (simp add: keeps_def)
      have n1: "r < next_ref (s\<lparr>logged := logged s @ [Warning]\<rparr>)" using Cons.prems(1) by simp
      from Cons.IH [OF n1 Cons.prems(2)]
      have ih: "keeps r (s\<lparr>logged := logged s @ [Warning]\<rparr>) (snd (make_children env src recs acc (s\<lparr>logged := logged s @ [Warning]\<rparr>)))
       \<and> (case fst (make_children env src recs acc (s\<lparr>logged := logged s @ [Warning]\<rparr>)) of
            Inl x \<Rightarrow> True | Inr cs \<Rightarrow> list_all (\<lambda>c. c \<noteq> r) cs)" .
      have eq: "make_children env src (rec # recs) acc s
          = make_children env src recs acc (s\<lparr>logged := logged s @ [Warning]\<rparr>)"
        using Inl True rec by simp
      show ?thesis unfolding eq using ih k1 keeps_trans by metis
    next
      case False
      have "make_children env src (rec # recs) acc s = (Inl x, s)"
        using Inl False rec by (cases x) simp_all
      then show ?thesis by (simp add: keeps_refl)
    qed
  qed
qed

lemma emit_all_keeps:
  "list_all (\<lambda>c. c \<noteq> r) cs \<Longrightarrow> keeps r s (snd (emit_all env cs s))"
proof (induction cs arbitrary: s)
  case Nil
  then show ?case by (simp add: keeps_refl)
next
  case (Cons c cs)
  have ne: "c \<noteq> r" and rest: "list_all (\<lambda>c. c \<noteq> r) cs" using Cons.prems by simp_all
  have k1: "keeps r s (snd (emit_event env s c no_opts))"
    using emit_event_keeps [OF ne no_opts_not_quick] .
  obtain exc s1 where e: "emit_event env s c no_opts = (exc, s1)" by (metis surj_pair)
  show ?case
  proof (cases exc)
    case None
    then have "emit_all env (c # cs) s = emit_all env cs s1" using e by simp
    then show ?thesis using Cons.IH [OF rest, of s1] k1 e keeps_trans by (metis snd_conv)
  next
    case (Some x)
    then have "emit_all env (c # cs) s = (Some x, s1)" using e by simp
    then show ?thesis using k1 e by simp
  qed
qed

lemma emit_dns_children_keeps:
  assumes "r < next_ref s"
  shows "keeps r s (snd (emit_dns_children env r children s))"
proof -
  obtain sp s1 where sp: "speculate env r s = (sp, s1)" by (metis surj_pair)
  have k1: "keeps r s s1" using speculate_keeps [OF assms, of env] sp by simp
  have n1: "r < next_ref s1" using k1 assms by (rule keeps_next_ref)
  show ?thesis
  proof (cases sp)
    case (Inl x)
    then show ?thesis using sp k1 by (simp add: emit_dns_children_def Let_def)
  next
    case (Inr src)
    show ?thesis
    proof (cases "dns_resolution env \<and> -1 < scope_distance (heap s r) \<and> scope_distance (heap s r) < dns_search_distance env")
      case False
      then have "snd (emit_dns_children env r children s) = s1"
        using sp Inr by (auto simp add: emit_dns_children_def Let_def)
      then show ?thesis using k1 by simp
    next
      case True
      show ?thesis
      proof (cases children)
        case None
        then have "snd (emit_dns_children env r children s) = s1"
          using sp Inr True by (simp add: emit_dns_children_def Let_def)
        then show ?thesis using k1 by simp
      next
        case (Some recs)
        obtain mc s2 where mc: "make_children env src recs [] s1 = (mc, s2)" by (metis surj_pair)
        have m: "keeps r s1 s2 \<and> (case mc of Inl x \<Rightarrow> True | Inr cs \<Rightarrow> list_all (\<lambda>c. c \<noteq> r) cs)"
          using make_children_keeps [OF n1, of "[]" env src recs] mc by simp
        show ?thesis
        proof (cases mc)
          case (Inl x)
          then have "snd (emit_dns_children env r children s) = s2"
            using sp Inr True Some mc by (simp add: emit_dns_children_def Let_def)
          then show ?thesis using k1 m keeps_trans by metis
        next
          case (Inr cs)
          then have "snd (emit_dns_children env r children s) = snd (emit_all env cs s2)"
            using sp \<open>sp = Inr src\<close> True Some mc by (simp add: emit_dns_children_def Let_def)
          moreover have "keeps r s2 (snd (emit_all env cs s2))"
            using m Inr by (simp add: emit_all_keeps)
          ultimately show ?thesis using k1 m keeps_trans by metis
        qed
      qed
    qed
  qed
qed

lemma accept_event_state:
  "snd (accept_event H s r) = s\<lparr>events_accepted := insert (hash_event H (heap s r)) (events_accepted s)\<rparr>"
  by (simp add: accept_event_def is_duplicate_event_def Let_def)


lemma catch_unnamed: "catch env False callback force on_finish_callback s = Some (Some OtherException, s)"
  by (simp add: catch_def)

lemma catch_callback:
  "\<exists>lg sc. catch env True (\<lambda>st. Some (f st, st)) force None s
     = Some (None, s\<lparr>clock := clock s + 1, logged := lg, stop_calls := sc,
                      stats_function_called := stats_function_called s + 1\<rparr>)"
proof (cases "\<not> stopping_reads env (clock s) \<or> force")
  case False
  have "catch env True (\<lambda>st. Some (f st, st)) force None s
     = Some (None, s\<lparr>clock := clock s + 1, logged := logged s, stop_calls := stop_calls s,
                      stats_function_called := stats_function_called s + 1\<rparr>)"
    using False by (simp add: catch_def Let_def)
  then show ?thesis by blast
next
  case True
  show ?thesis
  proof (cases "f (s\<lparr>clock := clock s + 1\<rparr>)")
    case None
    have "catch env True (\<lambda>st. Some (f st, st)) force None s
     = Some (None, s\<lparr>clock := clock s + 1, logged := logged s, stop_calls := stop_calls s,
                      stats_function_called := stats_function_called s + 1\<rparr>)"
      using True None by (auto simp add: catch_def Let_def)
    then show ?thesis by blast
  next
    case (Some e)
    have "catch env True (\<lambda>st. Some (f st, st)) force None s
     = Some (None, s\<lparr>clock := clock s + 1,
                      logged := (if e \<in> {ScanCancelledError, BrokenPipeError, KeyboardInterrupt} then logged s else logged s @ [Error]),
                      stop_calls := (if e = KeyboardInterrupt then stop_calls s + 1 else stop_calls s),
                      stats_function_called := stats_function_called s + 1\<rparr>)"
      using True Some by (cases e) (auto simp add: catch_def Let_def)
    then show ?thesis by blast
  qed
qed

text \<open>
  From \<open>abort_if\<close> on, the block always returns, the event itself is not written, and
  nothing is queued when \<open>emit_event\<close> is false.
\<close>

lemma decide_and_emit_result:
  assumes "r < next_ref s"
  shows "\<exists>exc em s'. decide_and_emit env r opts flag children s = Some (exc, em, s')
           \<and> heap s' r = heap s r \<and> stats_emitted s' = stats_emitted s
           \<and> (em \<longrightarrow> flag) \<and> (\<not> flag \<longrightarrow> event_queue s' = event_queue s)"
proof -
  define ab where "ab = (case abort_if opts of None \<Rightarrow> Inr False | Some f \<Rightarrow> f (heap s r))"
  show ?thesis
  proof (cases ab)
    case (Inl x)
    then have "decide_and_emit env r opts flag children s = Some (Some x, False, s)"
      by (simp add: decide_and_emit_def ab_def [symmetric])
    then show ?thesis by auto
  next
    case (Inr veto)
    show ?thesis
    proof (cases veto)
      case True
      then have "decide_and_emit env r opts flag children s = Some (None, False, s)"
        using Inr by (simp add: decide_and_emit_def ab_def [symmetric])
      then show ?thesis by auto
    next
      case no_veto: False
      define s1 where "s1 = snd (accept_event (py_hash env) s r)"
      have s1: "s1 = s\<lparr>events_accepted := insert (hash_event (py_hash env) (heap s r)) (events_accepted s)\<rparr>"
        by (simp add: s1_def accept_event_state)
      have acc: "accept_event (py_hash env) s r = (fst (accept_event (py_hash env) s r), s1)"
        by (simp add: s1_def)
      show ?thesis
      proof (cases "fst (accept_event (py_hash env) s r)")
        case False
        then have "decide_and_emit env r opts flag children s = Some (None, False, s1)"
          using Inr no_veto acc
          by (simp add: decide_and_emit_def ab_def [symmetric] split: prod.splits)
        then show ?thesis using s1 by auto
      next
        case accepted: True
        define qe where "qe = (if flag then queue_event env s1 r else (None, s1))"
        obtain qx s2 where q: "qe = (qx, s2)" by (metis surj_pair)
        have s2: "heap s2 r = heap s r \<and> stats_emitted s2 = stats_emitted s \<and> next_ref s2 = next_ref s
                 \<and> (\<not> flag \<longrightarrow> event_queue s2 = event_queue s)"
          using q queue_event_state [of env s1 r] s1
          by (auto simp: qe_def split: if_splits)
        show ?thesis
        proof (cases qx)
          case (Some x)
          then have "decide_and_emit env r opts flag children s = Some (Some x, False, s2)"
            using Inr no_veto acc accepted q
            by (simp add: decide_and_emit_def ab_def [symmetric] qe_def [symmetric] split: prod.splits)
          then show ?thesis using s2 by auto
        next
          case None
          define cb where "cb = (case on_success_callback opts of
                             None \<Rightarrow> Some (None, s2)
                           | Some (has_qualname, f) \<Rightarrow>
                               catch env has_qualname (\<lambda>st. Some (f (heap st r), st)) False None s2)"
          have "\<exists>x3 s3. cb = Some (x3, s3) \<and> heap s3 r = heap s2 r \<and> stats_emitted s3 = stats_emitted s2
                   \<and> next_ref s3 = next_ref s2 \<and> event_queue s3 = event_queue s2"
          proof (cases "on_success_callback opts")
            case None
            then show ?thesis by (simp add: cb_def)
          next
            case (Some nf)
            obtain named f where nf: "nf = (named, f)" by (metis surj_pair)
            show ?thesis
            proof (cases named)
              case True
              obtain lg sc where "catch env True (\<lambda>st. Some (f (heap st r), st)) False None s2
                  = Some (None, s2\<lparr>clock := clock s2 + 1, logged := lg, stop_calls := sc,
                        stats_function_called := stats_function_called s2 + 1\<rparr>)"
                using catch_callback [of env "\<lambda>st. f (heap st r)" False s2] by blast
              then show ?thesis using Some nf True by (simp add: cb_def)
            next
              case False
              then show ?thesis using Some nf by (simp add: cb_def catch_unnamed)
            qed
          qed
          then obtain x3 s3 where cb: "cb = Some (x3, s3)" and s3: "heap s3 r = heap s2 r"
              "stats_emitted s3 = stats_emitted s2" "next_ref s3 = next_ref s2" "event_queue s3 = event_queue s2"
            by blast
          show ?thesis
          proof (cases x3)
            case (Some x)
            then have "decide_and_emit env r opts flag children s = Some (Some x, flag, s3)"
              using Inr no_veto acc accepted q None cb
              by (simp add: decide_and_emit_def ab_def [symmetric] qe_def [symmetric] cb_def [symmetric]
                    split: prod.splits)
            then show ?thesis using s2 s3 by auto
          next
            case no_exc: None
            have n3: "r < next_ref s3" using assms s2 s3 by simp
            define s4 where "s4 = snd (emit_dns_children env r children s3)"
            have k4: "keeps r s3 s4" using emit_dns_children_keeps [OF n3] by (simp add: s4_def)
            have "decide_and_emit env r opts flag children s
                   = Some (fst (emit_dns_children env r children s3), flag, s4)"
              using Inr no_veto acc accepted q None cb no_exc
              by (simp add: decide_and_emit_def ab_def [symmetric] qe_def [symmetric] cb_def [symmetric]
                    s4_def split: prod.splits)
            then show ?thesis using k4 s2 s3 by (auto simp add: keeps_def)
          qed
        qed
      qed
    qed
  qed
qed

lemma marks_onlyI:
  "s' = s\<lparr>heap := (heap s)(r := (heap s r)\<lparr>tags := tg, scope_distance := sd,
              resolved_hosts := rh, resolved := rs\<rparr>), clock := ck\<rparr>
   \<Longrightarrow> marks_only r s s'"
  unfolding marks_only_def by blast

lemma marks_only_refl: "marks_only r s s"
proof -
  have "s = s\<lparr>heap := (heap s)(r := (heap s r)\<lparr>tags := tags (heap s r),
              scope_distance := scope_distance (heap s r),
              resolved_hosts := resolved_hosts (heap s r), resolved := resolved (heap s r)\<rparr>),
            clock := clock s\<rparr>"
    by simp
  then show ?thesis by (rule marks_onlyI)
qed

lemma marks_onlyD:
  assumes "marks_only r s s'"
  shows "released (heap s' r) = released (heap s r)"
    and "etype (heap s' r) = etype (heap s r)" and "data (heap s' r) = data (heap s r)"
    and "module (heap s' r) = module (heap s r)" and "source (heap s' r) = source (heap s r)"
    and "source_id (heap s' r) = source_id (heap s r)" and "host (heap s' r) = host (heap s r)"
    and "force_output (heap s' r) = force_output (heap s r)"
    and "next_ref s' = next_ref s" and "event_queue s' = event_queue s"
    and "stats_emitted s' = stats_emitted s" and "events_accepted s' = events_accepted s"
    and "submitted s' = submitted s" and "logged s' = logged s"
proof -
  obtain tg sd rh rs ck where eq: "s' = s\<lparr>heap := (heap s)(r := (heap s r)\<lparr>tags := tg, scope_distance := sd,
              resolved_hosts := rh, resolved := rs\<rparr>), clock := ck\<rparr>"
    using assms unfolding marks_only_def by blast
  show "released (heap s' r) = released (heap s r)" by (simp add: eq)
  show "etype (heap s' r) = etype (heap s r)" by (simp add: eq)
  show "data (heap s' r) = data (heap s r)" by (simp add: eq)
  show "module (heap s' r) = module (heap s r)" by (simp add: eq)
  show "source (heap s' r) = source (heap s r)" by (simp add: eq)
  show "source_id (heap s' r) = source_id (heap s r)" by (simp add: eq)
  show "host (heap s' r) = host (heap s r)" by (simp add: eq)
  show "force_output (heap s' r) = force_output (heap s r)" by (simp add: eq)
  show "next_ref s' = next_ref s" by (simp add: eq)
  show "event_queue s' = event_queue s" by (simp add: eq)
  show "stats_emitted s' = stats_emitted s" by (simp add: eq)
  show "events_accepted s' = events_accepted s" by (simp add: eq)
  show "submitted s' = submitted s" by (simp add: eq)
  show "logged s' = logged s" by (simp add: eq)
qed

lemma marks_only_other:
  assumes "marks_only r s s'" and "p \<noteq> r"
  shows "heap s' p = heap s p"
proof -
  obtain tg sd rh rs ck where eq: "s' = s\<lparr>heap := (heap s)(r := (heap s r)\<lparr>tags := tg, scope_distance := sd,
              resolved_hosts := rh, resolved := rs\<rparr>), clock := ck\<rparr>"
    using assms(1) unfolding marks_only_def by blast
  show ?thesis using assms(2) by (simp add: eq)
qed

lemma marks_only_trans:
  assumes "marks_only r s s1" and "marks_only r s1 s2"
  shows "marks_only r s s2"
proof -
  obtain tg sd rh rs ck where eq1: "s1 = s\<lparr>heap := (heap s)(r := (heap s r)\<lparr>tags := tg, scope_distance := sd,
              resolved_hosts := rh, resolved := rs\<rparr>), clock := ck\<rparr>"
    using assms(1) unfolding marks_only_def by blast
  obtain tg2 sd2 rh2 rs2 ck2 where eq2: "s2 = s1\<lparr>heap := (heap s1)(r := (heap s1 r)\<lparr>tags := tg2, scope_distance := sd2,
              resolved_hosts := rh2, resolved := rs2\<rparr>), clock := ck2\<rparr>"
    using assms(2) unfolding marks_only_def by blast
  have "s2 = s\<lparr>heap := (heap s)(r := (heap s r)\<lparr>tags := tg2, scope_distance := sd2,
              resolved_hosts := rh2, resolved := rs2\<rparr>), clock := ck2\<rparr>"
    by (simp add: eq2 eq1)
  then show ?thesis by (rule marks_onlyI)
qed

lemma marks_only_upd:
  assumes "\<And>e. f e = e\<lparr>tags := tg e, scope_distance := sd e, resolved_hosts := rh e, resolved := rs e\<rparr>"
  shows "marks_only r s (upd_event r f s)"
proof -
  have "upd_event r f s = s\<lparr>heap := (heap s)(r := (heap s r)\<lparr>tags := tg (heap s r),
          scope_distance := sd (heap s r), resolved_hosts := rh (heap s r), resolved := rs (heap s r)\<rparr>),
          clock := clock s\<rparr>"
    by (simp add: upd_event_def assms)
  then show ?thesis by (rule marks_onlyI)
qed

lemma marks_only_dup:
  assumes "marks_only r s s'"
  shows "fst (is_duplicate_event H s' r False) = fst (is_duplicate_event H s r False)"
  using marks_onlyD [OF assms]
  by (simp add: is_duplicate_event_def hash_event_def Let_def)

lemma resolve_and_tag_marks: "marks_only r s (snd (resolve_and_tag env r s))"
proof -
  define answer where "answer = resolve_event env (heap s r)"
  define s1 where "s1 = (if dns_sets_resolved answer then set_resolved r s else s)"
  have m1: "marks_only r s s1"
    unfolding s1_def set_resolved_def
    using marks_only_upd [where f = "\<lambda>e. e\<lparr>resolved := True\<rparr>" and tg = tags and sd = scope_distance and rh = resolved_hosts and rs = "\<lambda>e. True" and r = r and s = s]
          marks_only_refl [of r s]
    by simp
  show ?thesis
  proof (cases "dns_outcome answer")
    case (Inl x)
    then show ?thesis using m1 by (simp add: resolve_and_tag_def Let_def answer_def s1_def)
  next
    case (Inr res)
    define s2 where "s2 = upd_event r (\<lambda>e. e\<lparr>resolved_hosts := dns_resolved_hosts res\<rparr>) s1"
    define s3 where "s3 = (if etype (heap s2 r) \<in> {''DNS_NAME'', ''IP_ADDRESS''}
                        then upd_event r (\<lambda>e. e\<lparr>tags := tags e \<union> dns_tags res\<rparr>) s2 else s2)"
    define s4 where "s4 = (if event_blacklisted_dns res \<or> blacklisted env (heap s2 r)
                        then upd_event r (\<lambda>e. e\<lparr>tags := insert ''blacklisted'' (tags e)\<rparr>) s3 else s3)"
    have m2: "marks_only r s1 s2"
      unfolding s2_def
      using marks_only_upd [where f = "\<lambda>e. e\<lparr>resolved_hosts := dns_resolved_hosts res\<rparr>" and tg = tags and sd = scope_distance and rh = "\<lambda>e. dns_resolved_hosts res" and rs = resolved and r = r and s = s1]
      by simp
    have m3: "marks_only r s2 s3"
      unfolding s3_def
      using marks_only_upd [where f = "\<lambda>e. e\<lparr>tags := tags e \<union> dns_tags res\<rparr>" and tg = "\<lambda>e. tags e \<union> dns_tags res" and sd = scope_distance and rh = resolved_hosts and rs = resolved and r = r and s = s2] marks_only_refl [of r s2]
      by simp
    have m4: "marks_only r s3 s4"
      unfolding s4_def
      using marks_only_upd [where f = "\<lambda>e. e\<lparr>tags := insert ''blacklisted'' (tags e)\<rparr>" and tg = "\<lambda>e. insert ''blacklisted'' (tags e)" and sd = scope_distance and rh = resolved_hosts and rs = resolved and r = r and s = s3] marks_only_refl [of r s3]
      by simp
    have "snd (resolve_and_tag env r s) = s4"
      using Inr by (simp add: resolve_and_tag_def Let_def answer_def s1_def s2_def s3_def s4_def)
    then show ?thesis using m1 m2 m3 m4 marks_only_trans by metis
  qed
qed

lemma resolve_and_tag_Inl:
  assumes "dns_outcome (resolve_event env (heap s r)) = Inl x"
  shows "fst (resolve_and_tag env r s) = Inl x"
    and "resolved (heap (snd (resolve_and_tag env r s)) r)
           = (resolved (heap s r) \<or> dns_sets_resolved (resolve_event env (heap s r)))"
    and "tags (heap (snd (resolve_and_tag env r s)) r) = tags (heap s r)"
  using assms by (simp_all add: resolve_and_tag_def Let_def set_resolved_def upd_event_def)

lemma resolve_and_tag_Inr:
  assumes "dns_outcome (resolve_event env (heap s r)) = Inr res"
  shows "fst (resolve_and_tag env r s)
           = Inr (''blacklisted'' \<notin> tags (heap (snd (resolve_and_tag env r s)) r),
                  event_whitelisted_dns res \<or> whitelisted env (seen_by_matchers env (heap s r)),
                  answer_children res)"
    and "resolved (heap (snd (resolve_and_tag env r s)) r)
           = (resolved (heap s r) \<or> dns_sets_resolved (resolve_event env (heap s r)))"
    and "tags (heap s r) \<subseteq> tags (heap (snd (resolve_and_tag env r s)) r)"
    and "event_blacklisted_dns res \<or> blacklisted env (seen_by_matchers env (heap s r))
           \<Longrightarrow> ''blacklisted'' \<in> tags (heap (snd (resolve_and_tag env r s)) r)"
    and "scope_distance (heap (snd (resolve_and_tag env r s)) r) = scope_distance (heap s r)"
proof -
  define answer where "answer = resolve_event env (heap s r)"
  have o: "dns_outcome answer = Inr res" using assms by (simp add: answer_def)
  have seen: "seen_by_matchers env (heap s r)
     = (heap s r)\<lparr>resolved := (resolved (heap s r) \<or> dns_sets_resolved answer),
                   resolved_hosts := dns_resolved_hosts res\<rparr>"
    using o by (simp add: seen_by_matchers_def Let_def answer_def [symmetric])
  have h2: "heap (upd_event r (\<lambda>e. e\<lparr>resolved_hosts := dns_resolved_hosts res\<rparr>)
                (if dns_sets_resolved answer then set_resolved r s else s)) r
            = seen_by_matchers env (heap s r)"
    by (cases "dns_sets_resolved answer") (simp_all add: seen upd_event_def set_resolved_def)
  show "fst (resolve_and_tag env r s)
           = Inr (''blacklisted'' \<notin> tags (heap (snd (resolve_and_tag env r s)) r),
                  event_whitelisted_dns res \<or> whitelisted env (seen_by_matchers env (heap s r)),
                  answer_children res)"
    using o h2 by (simp add: resolve_and_tag_def Let_def answer_def [symmetric])
  show "resolved (heap (snd (resolve_and_tag env r s)) r)
           = (resolved (heap s r) \<or> dns_sets_resolved (resolve_event env (heap s r)))"
    using o by (simp add: resolve_and_tag_def Let_def answer_def [symmetric] upd_event_def set_resolved_def)
  show "tags (heap s r) \<subseteq> tags (heap (snd (resolve_and_tag env r s)) r)"
    using o by (auto simp add: resolve_and_tag_def Let_def answer_def [symmetric] upd_event_def set_resolved_def)
  show "scope_distance (heap (snd (resolve_and_tag env r s)) r) = scope_distance (heap s r)"
    using o by (simp add: resolve_and_tag_def Let_def answer_def [symmetric] upd_event_def set_resolved_def)
  show "''blacklisted'' \<in> tags (heap (snd (resolve_and_tag env r s)) r)"
    if "event_blacklisted_dns res \<or> blacklisted env (seen_by_matchers env (heap s r))"
    using o that h2
    by (simp add: resolve_and_tag_def Let_def answer_def [symmetric]) (simp add: upd_event_def)
qed

lemma wait_resolved_set:
  "wait_resolved stopping True clk
     = (if stopping clk then Some (Some ScanCancelledError, clk + 1) else Some (None, clk + 1))"
  by (subst wait_resolved.simps) simp

lemma wait_resolved_stopping:
  "stopping clk \<Longrightarrow> wait_resolved stopping is_resolved clk = Some (Some ScanCancelledError, clk + 1)"
  by (subst wait_resolved.simps) simp

lemma wait_resolved_later:
  "\<not> stopping clk \<Longrightarrow> wait_resolved stopping False clk = wait_resolved stopping False (clk + 1)"
  by (subst wait_resolved.simps) simp

lemma wait_for_parent_marks:
  assumes "wait_for_parent env r wl s = Some (exc, s')"
  shows "marks_only r s s' \<and> resolved (heap s' r) = resolved (heap s r)
         \<and> tags (heap s' r) = tags (heap s r)"
proof (cases "\<not> wl \<or> ''target'' \<notin> tags (heap s r)")
  case False
  then have "s' = s" using assms by (simp add: wait_for_parent_def)
  then show ?thesis by (simp add: marks_only_refl)
next
  case True
  obtain x clk where w: "wait_resolved (stopping_reads env) (resolved (heap s r)) (clock s) = Some (x, clk)"
    using assms True by (auto simp add: wait_for_parent_def split: option.splits)
  have mc: "marks_only r s (s\<lparr>clock := clk\<rparr>)"
  proof -
    have "s\<lparr>clock := clk\<rparr> = s\<lparr>heap := (heap s)(r := (heap s r)\<lparr>tags := tags (heap s r),
              scope_distance := scope_distance (heap s r),
              resolved_hosts := resolved_hosts (heap s r), resolved := resolved (heap s r)\<rparr>),
            clock := clk\<rparr>" by simp
    then show ?thesis by (rule marks_onlyI)
  qed
  show ?thesis
  proof (cases x)
    case (Some e)
    then have "s' = s\<lparr>clock := clk\<rparr>" using assms True w by (simp add: wait_for_parent_def)
    then show ?thesis using mc by simp
  next
    case None
    show ?thesis
    proof (cases "source (heap s r)")
      case no_src: None
      then have "s' = s\<lparr>clock := clk\<rparr>" using assms True w None by (simp add: wait_for_parent_def)
      then show ?thesis using mc by simp
    next
      case (Some p)
      then have s': "s' = upd_event r (\<lambda>e. e\<lparr>scope_distance := scope_distance (heap s p) + 1\<rparr>) (s\<lparr>clock := clk\<rparr>)"
        using assms True w None by (simp add: wait_for_parent_def)
      have "marks_only r (s\<lparr>clock := clk\<rparr>) s'"
        unfolding s'
        using marks_only_upd [where f = "\<lambda>e. e\<lparr>scope_distance := scope_distance (heap s p) + 1\<rparr>" and tg = tags and sd = "\<lambda>e. scope_distance (heap s p) + 1" and rh = resolved_hosts and rs = resolved and r = r and s = "s\<lparr>clock := clk\<rparr>"]
        by simp
      then have "marks_only r s s'" using mc marks_only_trans by metis
      then show ?thesis by (simp add: s' upd_event_def)
    qed
  qed
qed

lemma wait_for_parent_returns:
  assumes "resolved (heap s r)"
  shows "wait_for_parent env r wl s \<noteq> None"
  using assms
  by (simp add: wait_for_parent_def wait_resolved_set split: option.splits)

lemma scope_shepherding_marks:
  "marks_only r s (scope_shepherding env r wl s)
   \<and> resolved (heap (scope_shepherding env r wl s) r) = resolved (heap s r)
   \<and> tags (heap s r) \<subseteq> tags (heap (scope_shepherding env r wl s) r)"
proof -
  have a: "marks_only r s (upd_event r (make_in_scope d) s)" for d
    using marks_only_upd [where f = "make_in_scope d" and tg = tags and sd = "\<lambda>e. d" and rh = resolved_hosts and rs = resolved and r = r and s = s]
    by (simp add: make_in_scope_def)
  have b: "marks_only r s (upd_event r make_internal s)"
    using marks_only_upd [where f = make_internal and tg = "\<lambda>e. insert ''internal'' (tags e)" and sd = scope_distance and rh = resolved_hosts and rs = resolved and r = r and s = s]
    by (simp add: make_internal_def)
  have c: "scope_shepherding env r wl s = s \<or> scope_shepherding env r wl s = upd_event r make_internal s
      \<or> (\<exists>d. scope_shepherding env r wl s = upd_event r (make_in_scope d) s)"
    by (cases "host (heap s r)") (auto simp add: scope_shepherding_def Let_def)
  have r1: "resolved (heap (upd_event r (make_in_scope d) s) r) = resolved (heap s r)
        \<and> tags (heap s r) \<subseteq> tags (heap (upd_event r (make_in_scope d) s) r)" for d
    by (simp add: upd_event_def make_in_scope_def)
  have r2: "resolved (heap (upd_event r make_internal s) r) = resolved (heap s r)
        \<and> tags (heap s r) \<subseteq> tags (heap (upd_event r make_internal s) r)"
    by (auto simp add: upd_event_def make_internal_def)
  show ?thesis using a b c r1 r2 marks_only_refl [of r s] by (metis subset_refl)
qed

lemma resolve_and_tag_clock: "clock (snd (resolve_and_tag env r s)) = clock s"
  by (cases "dns_outcome (resolve_event env (heap s r))")
     (simp_all add: resolve_and_tag_def Let_def upd_event_def set_resolved_def)

lemma finish_run_props:
  "released (heap (snd (finish_run r (exc, em, s1))) r) = released (heap s1 r) + 1
   \<and> resolved (heap (snd (finish_run r (exc, em, s1))) r) = resolved (heap s1 r)
   \<and> tags (heap (snd (finish_run r (exc, em, s1))) r) = tags (heap s1 r)
   \<and> event_queue (snd (finish_run r (exc, em, s1))) = event_queue s1
   \<and> stats_emitted (snd (finish_run r (exc, em, s1))) = stats_emitted s1 @ (if em then [r] else [])"
proof (cases exc)
  case None
  then show ?thesis by (simp add: finish_run_def Let_def release_semaphore_def upd_event_def)
next
  case (Some x)
  then show ?thesis
    by (cases x) (simp_all add: finish_run_def Let_def release_semaphore_def upd_event_def)
qed

lemma catch_runs:
  assumes "\<not> stopping_reads env (clock s)"
    and "callback (s\<lparr>clock := clock s + 1\<rparr>) = Some (exc, s1)"
  shows "\<exists>lg sc. catch env True callback False None s
           = Some (None, s1\<lparr>logged := lg, stop_calls := sc,
                            stats_function_called := stats_function_called s1 + 1\<rparr>)"
proof (cases exc)
  case None
  have "catch env True callback False None s
           = Some (None, s1\<lparr>logged := logged s1, stop_calls := stop_calls s1,
                            stats_function_called := stats_function_called s1 + 1\<rparr>)"
    using assms None by (simp add: catch_def Let_def)
  then show ?thesis by blast
next
  case (Some e)
  have "catch env True callback False None s
           = Some (None, s1\<lparr>logged := (if e \<in> {ScanCancelledError, BrokenPipeError, KeyboardInterrupt} then logged s1 else logged s1 @ [Error]),
                            stop_calls := (if e = KeyboardInterrupt then stop_calls s1 + 1 else stop_calls s1),
                            stats_function_called := stats_function_called s1 + 1\<rparr>)"
    using assms Some by (cases e) (simp_all add: catch_def Let_def)
  then show ?thesis by blast
qed

lemma catch_skips:
  assumes "stopping_reads env (clock s)"
  shows "catch env True callback False None s
           = Some (None, s\<lparr>clock := clock s + 1, stats_function_called := stats_function_called s + 1\<rparr>)"
  using assms by (simp add: catch_def Let_def)

lemma emit_event_rejected:
  assumes "\<not> fst (priv_event_precheck env s r)"
  shows "emit_event env s r opts
           = (None, set_resolved r (release_semaphore r (snd (priv_event_precheck env s r))))"
  using assms by (cases "priv_event_precheck env s r") (simp add: emit_event_def)

lemma emit_event_quick_path:
  assumes "fst (priv_event_precheck env s r)" and "quick opts"
  shows "emit_event env s r opts =
           (if fst (queue_event env s r) = Some KeyboardInterrupt then Some KeyboardInterrupt else None,
            set_resolved r (release_semaphore r
              (if fst (queue_event env s r) = None \<or> fst (queue_event env s r) = Some KeyboardInterrupt
               then snd (queue_event env s r)
               else (snd (queue_event env s r))\<lparr>logged := logged (snd (queue_event env s r)) @ [Error]\<rparr>)))"
proof -
  have p: "priv_event_precheck env s r = (True, s)"
    using assms(1) precheck_ok_state [OF assms(1)] by (cases "priv_event_precheck env s r") simp
  obtain qx s1 where q: "queue_event env s r = (qx, s1)" by (metis surj_pair)
  show ?thesis
  proof (cases qx)
    case None
    then show ?thesis using p q assms(2) by (simp add: emit_event_def Let_def)
  next
    case (Some e)
    then show ?thesis using p q assms(2) by (cases e) (simp_all add: emit_event_def Let_def)
  qed
qed

lemma emit_event_submit:
  assumes "fst (priv_event_precheck env s r)" and "\<not> quick opts"
  shows "emit_event env s r opts =
           (case submit_task_raises env of
              None \<Rightarrow> (None, s\<lparr>submitted := submitted s @ [(r, opts\<lparr>quick := False\<rparr>)]\<rparr>)
            | Some KeyboardInterrupt \<Rightarrow> (Some KeyboardInterrupt, s)
            | Some e \<Rightarrow> (None, set_resolved r (release_semaphore r
                            (if e \<noteq> RuntimeError then s\<lparr>logged := logged s @ [Error]\<rparr> else s))))"
proof -
  have p: "priv_event_precheck env s r = (True, s)"
    using assms(1) precheck_ok_state [OF assms(1)] by (cases "priv_event_precheck env s r") simp
  show ?thesis
  proof (cases "submit_task_raises env")
    case None
    then show ?thesis using p assms(2) by (simp add: emit_event_def)
  next
    case (Some e)
    then show ?thesis using p assms(2) by (cases e) (simp_all add: emit_event_def Let_def)
  qed
qed

lemma precheck_heap: "heap (snd (priv_event_precheck env s r)) = heap s"
  using precheck_state [of env s r] by auto

text \<open>
  Claim C8 does not hold for every call with \<open>quick\<close>: the precheck comes before the
  test of \<open>quick\<close>. Here \<open>emit_event\<close> is called with \<open>quick\<close> on a dummy event,
  and on an event whose hash is already in the accepted ledger. Both calls return
  normally and the central queue is still empty.
\<close>

theorem emit_event_quick_counterexample:
  "quick ex_quick_opts
   \<and> fst (emit_event ex_env (ex_state (ex_heap (1 := ex_event\<lparr>dummy := True\<rparr>))) 1 ex_quick_opts) = None
   \<and> event_queue (snd (emit_event ex_env (ex_state (ex_heap (1 := ex_event\<lparr>dummy := True\<rparr>))) 1 ex_quick_opts)) = []
   \<and> fst (emit_event ex_env
            ((ex_state ex_heap)\<lparr>events_accepted := {PyTuple [PyEvent ''IP_ADDRESS'' ''1.2.3.4'', PyStr ''httpx'']}\<rparr>)
            1 ex_quick_opts) = None
   \<and> event_queue (snd (emit_event ex_env
            ((ex_state ex_heap)\<lparr>events_accepted := {PyTuple [PyEvent ''IP_ADDRESS'' ''1.2.3.4'', PyStr ''httpx'']}\<rparr>)
            1 ex_quick_opts)) = []"
  by (simp add: emit_event_def priv_event_precheck_def is_duplicate_event_def hash_event_def Let_def
        set_resolved_def release_semaphore_def upd_event_def
        ex_quick_opts_def ex_env_def ex_state_def ex_heap_def ex_event_def ex_producer_def)

text \<open>
  Claim C8, as amended. With \<open>quick\<close> set, \<open>emit_event\<close> does the same whatever
  \<open>abort_if\<close> and \<open>on_success_callback\<close> are: both are dropped, and dropping them logs
  nothing and raises nothing. Nothing is given to the thread pool, the permit is released
  exactly once and the completion signal is set. The event is put on the central queue,
  directly, exactly when it passes the precheck and \<open>make_event\<close> accepts it; then no
  exception leaves and nothing is logged at warning level or above. An event that the
  precheck rejects is not queued, and the call returns normally. The only exception that
  can leave is a \<open>KeyboardInterrupt\<close> raised by \<open>make_event\<close>.
\<close>

theorem emit_event_quick:
  assumes "quick opts"
  shows "emit_event env s r opts = emit_event env s r (opts\<lparr>abort_if := None, on_success_callback := None\<rparr>)
     \<and> submitted (snd (emit_event env s r opts)) = submitted s
     \<and> released (heap (snd (emit_event env s r opts)) r) = released (heap s r) + 1
     \<and> resolved (heap (snd (emit_event env s r opts)) r)
     \<and> (fst (priv_event_precheck env s r) \<and> make_event_same env (heap s r) = None
          \<longrightarrow> fst (emit_event env s r opts) = None
              \<and> event_queue (snd (emit_event env s r opts)) = event_queue s @ [r]
              \<and> logged (snd (emit_event env s r opts)) = logged s)
     \<and> (\<not> (fst (priv_event_precheck env s r) \<and> make_event_same env (heap s r) = None)
          \<longrightarrow> event_queue (snd (emit_event env s r opts)) = event_queue s)
     \<and> (\<not> fst (priv_event_precheck env s r) \<longrightarrow> fst (emit_event env s r opts) = None)
     \<and> (fst (emit_event env s r opts) = None \<or> fst (emit_event env s r opts) = Some KeyboardInterrupt)"
proof (cases "fst (priv_event_precheck env s r)")
  case False
  have e: "emit_event env s r opts
           = (None, set_resolved r (release_semaphore r (snd (priv_event_precheck env s r))))"
    and e': "emit_event env s r (opts\<lparr>abort_if := None, on_success_callback := None\<rparr>)
           = (None, set_resolved r (release_semaphore r (snd (priv_event_precheck env s r))))"
    using emit_event_rejected [OF False] by simp_all
  have sub: "submitted (snd (priv_event_precheck env s r)) = submitted s"
    and qu: "event_queue (snd (priv_event_precheck env s r)) = event_queue s"
    using precheck_state [of env s r] by auto
  show ?thesis
    using False e e' sub qu release_set_same [of r "snd (priv_event_precheck env s r)"] precheck_heap [of env s r]
    by (simp add: release_set_fields)
next
  case True
  let ?q = "queue_event env s r"
  let ?s2 = "(if fst ?q = None \<or> fst ?q = Some KeyboardInterrupt then snd ?q
              else (snd ?q)\<lparr>logged := logged (snd ?q) @ [Error]\<rparr>)"
  have e: "emit_event env s r opts =
           (if fst ?q = Some KeyboardInterrupt then Some KeyboardInterrupt else None,
            set_resolved r (release_semaphore r ?s2))"
    using emit_event_quick_path [OF True assms] .
  have e': "emit_event env s r (opts\<lparr>abort_if := None, on_success_callback := None\<rparr>) =
           (if fst ?q = Some KeyboardInterrupt then Some KeyboardInterrupt else None,
            set_resolved r (release_semaphore r ?s2))"
    using emit_event_quick_path [OF True, of "opts\<lparr>abort_if := None, on_success_callback := None\<rparr>"] assms
    by simp
  have q: "snd ?q = s \<or> (fst ?q = None \<and> make_event_same env (heap s r) = None
      \<and> (\<exists>qt. snd ?q = s\<lparr>queued_event_types := qt, event_queue := event_queue s @ [r]\<rparr>))"
    using queue_event_state [of env s r] .
  have h2: "heap ?s2 = heap s" and sub2: "submitted ?s2 = submitted s"
    using q by auto
  have rel: "released (heap (set_resolved r (release_semaphore r ?s2)) r) = released (heap s r) + 1"
    using release_set_same(1) [of r ?s2] h2 by simp
  have res: "resolved (heap (set_resolved r (release_semaphore r ?s2)) r)"
    using release_set_same(2) [of r ?s2] .
  have sub: "submitted (set_resolved r (release_semaphore r ?s2)) = submitted s"
    using sub2 by (simp add: release_set_fields)
  have queued: "fst (emit_event env s r opts) = None
              \<and> event_queue (snd (emit_event env s r opts)) = event_queue s @ [r]
              \<and> logged (snd (emit_event env s r opts)) = logged s"
    if "make_event_same env (heap s r) = None"
  proof -
    have "queue_event env s r = (None, s\<lparr>queued_event_types := (queued_event_types s)(etype (heap s r) \<mapsto>
          (case queued_event_types s (etype (heap s r)) of None \<Rightarrow> 1 | Some k \<Rightarrow> k + 1)),
          event_queue := event_queue s @ [r]\<rparr>)"
      using that by (simp add: queue_event_def Let_def)
    then show ?thesis unfolding e by (simp add: release_set_fields)
  qed
  have unqueued: "event_queue (snd (emit_event env s r opts)) = event_queue s"
    if ne: "make_event_same env (heap s r) \<noteq> None"
  proof -
    obtain x where "make_event_same env (heap s r) = Some x" using ne by blast
    then have "queue_event env s r = (Some x, s)" by (simp add: queue_event_def)
    then show ?thesis unfolding e by (simp add: release_set_fields)
  qed
  have exc: "fst (emit_event env s r opts) = None \<or> fst (emit_event env s r opts) = Some KeyboardInterrupt"
    unfolding e by simp
  show ?thesis
    using True e e' rel res sub queued unqueued exc by simp
qed

lemma ex_precheck: "priv_event_precheck ex_env (ex_state ex_heap) 1 = (True, ex_state ex_heap)"
  by (simp add: priv_event_precheck_def Let_def is_duplicate_event_def ex_env_def ex_state_def
        ex_heap_def ex_event_def ex_scan_module_def ex_output_module_def)

theorem emit_event_quick_witness:
  "quick ex_quick_opts
   \<and> emit_event ex_env (ex_state ex_heap) 1 ex_quick_opts
       = emit_event ex_env (ex_state ex_heap) 1 (ex_quick_opts\<lparr>abort_if := None, on_success_callback := None\<rparr>)
   \<and> submitted (snd (emit_event ex_env (ex_state ex_heap) 1 ex_quick_opts)) = []
   \<and> released (heap (snd (emit_event ex_env (ex_state ex_heap) 1 ex_quick_opts)) 1) = 1
   \<and> resolved (heap (snd (emit_event ex_env (ex_state ex_heap) 1 ex_quick_opts)) 1)
   \<and> fst (emit_event ex_env (ex_state ex_heap) 1 ex_quick_opts) = None
   \<and> event_queue (snd (emit_event ex_env (ex_state ex_heap) 1 ex_quick_opts)) = [1]
   \<and> logged (snd (emit_event ex_env (ex_state ex_heap) 1 ex_quick_opts)) = []
   \<and> \<not> fst (priv_event_precheck ex_env (ex_state (ex_heap (1 := ex_event\<lparr>dummy := True\<rparr>))) 1)
   \<and> fst (emit_event ex_env (ex_state (ex_heap (1 := ex_event\<lparr>dummy := True\<rparr>))) 1 ex_quick_opts) = None
   \<and> event_queue (snd (emit_event ex_env (ex_state (ex_heap (1 := ex_event\<lparr>dummy := True\<rparr>))) 1 ex_quick_opts)) = []
   \<and> released (heap (snd (emit_event ex_env (ex_state (ex_heap (1 := ex_event\<lparr>dummy := True\<rparr>))) 1 ex_quick_opts)) 1) = 1
   \<and> resolved (heap (snd (emit_event ex_env (ex_state (ex_heap (1 := ex_event\<lparr>dummy := True\<rparr>))) 1 ex_quick_opts)) 1)"
proof -
  let ?d = "ex_state (ex_heap (1 := ex_event\<lparr>dummy := True\<rparr>))"
  have q: "quick ex_quick_opts" by (simp add: ex_quick_opts_def)
  have m: "make_event_same ex_env (heap (ex_state ex_heap) 1) = None" by (simp add: ex_env_def)
  have v: "submitted (ex_state ex_heap) = []" "released (heap (ex_state ex_heap) 1) = 0"
    "event_queue (ex_state ex_heap) = []" "logged (ex_state ex_heap) = []"
    "event_queue ?d = []" "released (heap ?d 1) = 0"
    by (simp_all add: ex_state_def ex_heap_def ex_event_def)
  have hyp: "fst (priv_event_precheck ex_env (ex_state ex_heap) 1)
      \<and> make_event_same ex_env (heap (ex_state ex_heap) 1) = None"
    using ex_precheck m by simp
  have pd: "\<not> fst (priv_event_precheck ex_env ?d 1)"
    by (simp add: priv_event_precheck_def Let_def ex_state_def ex_event_def)
  note T = emit_event_quick [OF q, of ex_env "ex_state ex_heap" 1]
  note D = emit_event_quick [OF q, of ex_env ?d 1]
  have a1: "emit_event ex_env (ex_state ex_heap) 1 ex_quick_opts
       = emit_event ex_env (ex_state ex_heap) 1 (ex_quick_opts\<lparr>abort_if := None, on_success_callback := None\<rparr>)"
    using T by blast
  have a2: "submitted (snd (emit_event ex_env (ex_state ex_heap) 1 ex_quick_opts)) = submitted (ex_state ex_heap)"
    using T by blast
  have a3: "released (heap (snd (emit_event ex_env (ex_state ex_heap) 1 ex_quick_opts)) 1)
       = released (heap (ex_state ex_heap) 1) + 1"
    using T by blast
  have a4: "resolved (heap (snd (emit_event ex_env (ex_state ex_heap) 1 ex_quick_opts)) 1)"
    using T by blast
  have a5: "fst (emit_event ex_env (ex_state ex_heap) 1 ex_quick_opts) = None
      \<and> event_queue (snd (emit_event ex_env (ex_state ex_heap) 1 ex_quick_opts)) = event_queue (ex_state ex_heap) @ [1]
      \<and> logged (snd (emit_event ex_env (ex_state ex_heap) 1 ex_quick_opts)) = logged (ex_state ex_heap)"
    using T hyp by blast
  have b1: "fst (emit_event ex_env ?d 1 ex_quick_opts) = None" using D pd by blast
  have b2: "event_queue (snd (emit_event ex_env ?d 1 ex_quick_opts)) = event_queue ?d" using D pd by blast
  have b3: "released (heap (snd (emit_event ex_env ?d 1 ex_quick_opts)) 1) = released (heap ?d 1) + 1"
    using D by blast
  have b4: "resolved (heap (snd (emit_event ex_env ?d 1 ex_quick_opts)) 1)" using D by blast
  show ?thesis
    using q a1 a2 a3 a4 a5 pd b1 b2 b3 b4 unfolding v by (intro conjI) simp_all
qed

text \<open>
  Claim C1 does not hold on every path. Here an event passes the precheck and is given to
  the thread pool; when the pool runs the task, \<open>catch\<close> reads \<open>scan.stopping\<close> as
  true and returns without calling \<open>_emit_event\<close>: the permit has not been released and
  the completion signal is not set.
\<close>

theorem emit_event_stopping_counterexample:
  "fst (emit_event ex_env_stopping (ex_state ex_heap) 1 no_opts) = None
   \<and> submitted (snd (emit_event ex_env_stopping (ex_state ex_heap) 1 no_opts)) = [(1, no_opts)]
   \<and> (\<exists>s'. run_task ex_env_stopping (1, no_opts) (snd (emit_event ex_env_stopping (ex_state ex_heap) 1 no_opts))
              = Some (None, s')
          \<and> released (heap s' 1) = 0 \<and> \<not> resolved (heap s' 1))"
proof -
  have p: "priv_event_precheck ex_env_stopping (ex_state ex_heap) 1 = (True, ex_state ex_heap)"
    by (simp add: priv_event_precheck_def Let_def is_duplicate_event_def ex_env_stopping_def ex_env_def
          ex_state_def ex_heap_def ex_event_def ex_scan_module_def ex_output_module_def)
  have e: "emit_event ex_env_stopping (ex_state ex_heap) 1 no_opts
             = (None, (ex_state ex_heap)\<lparr>submitted := [(1, no_opts)]\<rparr>)"
    using p by (simp add: emit_event_def no_opts_def ex_env_stopping_def ex_env_def ex_state_def)
  have st: "stopping_reads ex_env_stopping (clock ((ex_state ex_heap)\<lparr>submitted := [(1, no_opts)]\<rparr>))"
    by (simp add: ex_env_stopping_def)
  have r: "run_task ex_env_stopping (1, no_opts) ((ex_state ex_heap)\<lparr>submitted := [(1, no_opts)]\<rparr>)
      = Some (None, (ex_state ex_heap)\<lparr>submitted := [(1, no_opts)]\<rparr>
           \<lparr>clock := clock ((ex_state ex_heap)\<lparr>submitted := [(1, no_opts)]\<rparr>) + 1,
            stats_function_called := stats_function_called ((ex_state ex_heap)\<lparr>submitted := [(1, no_opts)]\<rparr>) + 1\<rparr>)"
    unfolding run_task_def using catch_skips [OF st] by simp
  show ?thesis
    unfolding e using r by (simp add: ex_state_def ex_heap_def ex_event_def)
qed

section \<open>Properties of the event pipeline: the polling loop\<close>

lemmas ex_defs = ex_dns_event_def ex_env_whitelisting_def ex_env_blacklisting_def ex_state_seen_def
  ex_env_def ex_state_def ex_heap_def ex_event_def ex_producer_def ex_dns_producer_def
  ex_scan_module_def ex_output_module_def ex_dns_result_def ex_new_event_def no_opts_def

lemmas run_defs = priv_emit_event_def emit_event_body_def skips_dns_def resolve_and_tag_def wait_for_parent_def
  scope_shepherding_def decide_and_emit_def accept_event_def is_duplicate_event_def hash_event_def
  finish_run_def emit_dns_children_def speculate_def emit_event_def priv_event_precheck_def
  queue_event_def upd_event_def set_resolved_def release_semaphore_def make_in_scope_def
  make_internal_def alloc_def Let_def wait_resolved_set catch_def

lemma wait_resolved_cancelled:
  "(\<forall>i<k. \<not> stopping (clk + i)) \<Longrightarrow> stopping (clk + k) \<Longrightarrow>
     wait_resolved stopping False clk = Some (Some ScanCancelledError, clk + k + 1)"
proof (induction k arbitrary: clk)
  case 0
  then show ?case using wait_resolved_stopping [of stopping clk False] by simp
next
  case (Suc k)
  have now: "\<not> stopping clk" using Suc.prems(1) by (auto dest: spec [of _ 0])
  have later: "\<forall>i<k. \<not> stopping (clk + 1 + i)"
  proof (intro allI impI)
    fix i assume "i < k"
    then have "\<not> stopping (clk + Suc i)" using Suc.prems(1) by auto
    then show "\<not> stopping (clk + 1 + i)" by simp
  qed
  have hit: "stopping (clk + 1 + k)" using Suc.prems(2) by simp
  have "wait_resolved stopping False (clk + 1) = Some (Some ScanCancelledError, clk + 1 + k + 1)"
    using Suc.IH [OF later hit] .
  then show ?case using wait_resolved_later [of stopping clk] now by simp
qed

lemma wait_resolved_some:
  assumes h: "wait_resolved stopping is_resolved clk = Some y"
  shows "is_resolved \<or> (\<exists>i. stopping (clk + i))"
proof (rule wait_resolved.raw_induct [where P = "\<lambda>st rs c y. rs \<or> (\<exists>i. st (c + i))", OF _ h])
  fix f :: "(nat \<Rightarrow> bool) \<Rightarrow> bool \<Rightarrow> nat \<Rightarrow> (exn option \<times> nat) option"
  fix st rs c y'
  assume IH: "\<And>st rs c y. f st rs c = Some y \<Longrightarrow> rs \<or> (\<exists>i. st (c + i))"
  assume eq: "(if st c then Some (Some ScanCancelledError, c + 1)
      else if rs then Some (None, c + 1) else f st rs (c + 1)) = Some y'"
  show "rs \<or> (\<exists>i. st (c + i))"
  proof (cases "st c")
    case True
    then have "st (c + 0)" by simp
    then show ?thesis by blast
  next
    case False
    show ?thesis
    proof (cases rs)
      case True
      then show ?thesis by simp
    next
      case nr: False
      then have "f st rs (c + 1) = Some y'" using eq False by simp
      then have "rs \<or> (\<exists>i. st (c + 1 + i))" by (rule IH)
      then obtain i where "st (c + 1 + i)" using nr by blast
      then have "st (c + Suc i)" by simp
      then show ?thesis by blast
    qed
  qed
qed

lemma wait_resolved_never:
  "\<forall>i. \<not> stopping (clk + i) \<Longrightarrow> wait_resolved stopping False clk = None"
  using wait_resolved_some [of stopping False clk] by (cases "wait_resolved stopping False clk") auto


lemma emit_event_body_unskipped:
  assumes "\<not> skips_dns env (heap s r)"
  shows "emit_event_body env r opts s =
       (case resolve_and_tag env r s of
          (Inl x, s1) \<Rightarrow> Some (Some x, False, s1)
        | (Inr (emit_event_flag, event_whitelisted, dns_children), s1) \<Rightarrow>
            (case wait_for_parent env r event_whitelisted s1 of
               None \<Rightarrow> None
             | Some (Some x, s2) \<Rightarrow> Some (Some x, False, s2)
             | Some (None, s2) \<Rightarrow>
                 decide_and_emit env r opts emit_event_flag (Some dns_children)
                   (scope_shepherding env r event_whitelisted s2)))"
proof -
  have nb: "skips_dns env (heap s r) = False"
    using assms by simp
  show ?thesis unfolding emit_event_body_def Let_def nb by simp
qed

section \<open>Properties of the event pipeline: a run of \<open>_emit_event\<close>\<close>

lemma resolve_and_tag_tags:
  assumes "dns_outcome (resolve_event env (heap s r)) = Inr res"
  shows "tags (heap (snd (resolve_and_tag env r s)) r)
           = tags_after_dns (heap s r) res
             \<union> (if blacklisted_verdict env (heap s r) res then {''blacklisted''} else {})"
proof -
  define answer where "answer = resolve_event env (heap s r)"
  have o: "dns_outcome answer = Inr res" using assms by (simp add: answer_def)
  have seen: "seen_by_matchers env (heap s r)
     = (heap s r)\<lparr>resolved := (resolved (heap s r) \<or> dns_sets_resolved answer),
                   resolved_hosts := dns_resolved_hosts res\<rparr>"
    using o by (simp add: seen_by_matchers_def Let_def answer_def [symmetric])
  define s2 where "s2 = upd_event r (\<lambda>e. e\<lparr>resolved_hosts := dns_resolved_hosts res\<rparr>)
                (if dns_sets_resolved answer then set_resolved r s else s)"
  have h2: "heap s2 r = seen_by_matchers env (heap s r)"
    by (cases "dns_sets_resolved answer") (simp_all add: s2_def seen upd_event_def set_resolved_def)
  have t2: "tags (heap s2 r) = tags (heap s r)" and e2: "etype (heap s2 r) = etype (heap s r)"
    using h2 by (simp_all add: seen)
  define s3 where "s3 = (if etype (heap s2 r) \<in> {''DNS_NAME'', ''IP_ADDRESS''}
                        then upd_event r (\<lambda>e. e\<lparr>tags := tags e \<union> dns_tags res\<rparr>) s2 else s2)"
  have t3: "tags (heap s3 r) = tags_after_dns (heap s r) res"
    using t2 e2 by (simp add: s3_def tags_after_dns_def upd_event_def)
  define s4 where "s4 = (if event_blacklisted_dns res \<or> blacklisted env (heap s2 r)
                        then upd_event r (\<lambda>e. e\<lparr>tags := insert ''blacklisted'' (tags e)\<rparr>) s3 else s3)"
  have t4: "tags (heap s4 r) = tags_after_dns (heap s r) res
             \<union> (if blacklisted_verdict env (heap s r) res then {''blacklisted''} else {})"
    using t3 h2 by (simp add: s4_def blacklisted_verdict_def upd_event_def)
  have "snd (resolve_and_tag env r s) = s4"
    using o by (simp add: resolve_and_tag_def Let_def answer_def [symmetric] s2_def s3_def s4_def)
  then show ?thesis using t4 by simp
qed

lemma resolve_and_tag_result:
  assumes "dns_outcome (resolve_event env (heap s r)) = Inr res"
  shows "resolve_and_tag env r s
           = (Inr (\<not> blacklisted_verdict env (heap s r) res \<and> ''blacklisted'' \<notin> tags_after_dns (heap s r) res,
                   whitelisted_verdict env (heap s r) res, answer_children res),
              snd (resolve_and_tag env r s))"
  using resolve_and_tag_Inr(1) [OF assms] resolve_and_tag_tags [OF assms]
  by (cases "resolve_and_tag env r s") (auto simp add: whitelisted_verdict_def)

lemma scope_shepherding_distance:
  "scope_distance (heap (scope_shepherding env r wl s) r)
     = (if host (heap s r) = None \<or> (wl \<and> \<not> fst (is_duplicate_event (py_hash env) s r False))
        then 0 else scope_distance (heap s r))"
  by (cases "host (heap s r)")
     (auto simp add: scope_shepherding_def Let_def upd_event_def make_in_scope_def make_internal_def)

lemma resolve_and_tag_state:
  assumes "dns_outcome (resolve_event env (heap s r)) = Inr res"
  shows "marks_only r s (snd (resolve_and_tag env r s))"
    and "clock (snd (resolve_and_tag env r s)) = clock s"
    and "resolved (heap (snd (resolve_and_tag env r s)) r) = resolved (seen_by_matchers env (heap s r))"
    and "(''target'' \<in> tags (heap (snd (resolve_and_tag env r s)) r))
           = (''target'' \<in> tags_after_dns (heap s r) res)"
    and "scope_distance (heap (snd (resolve_and_tag env r s)) p) = scope_distance (heap s p)"
proof -
  show m: "marks_only r s (snd (resolve_and_tag env r s))" by (rule resolve_and_tag_marks)
  show "clock (snd (resolve_and_tag env r s)) = clock s" by (rule resolve_and_tag_clock)
  show "resolved (heap (snd (resolve_and_tag env r s)) r) = resolved (seen_by_matchers env (heap s r))"
    using resolve_and_tag_Inr(2) [OF assms] by (simp add: seen_by_matchers_def Let_def)
  show "(''target'' \<in> tags (heap (snd (resolve_and_tag env r s)) r))
           = (''target'' \<in> tags_after_dns (heap s r) res)"
    using resolve_and_tag_tags [OF assms] by simp
  show "scope_distance (heap (snd (resolve_and_tag env r s)) p) = scope_distance (heap s p)"
  proof (cases "p = r")
    case True
    then show ?thesis using resolve_and_tag_Inr(5) [OF assms] by simp
  next
    case False
    then show ?thesis using marks_only_other [OF m] by simp
  qed
qed

lemma wait_for_parent_skip:
  "wl \<and> ''target'' \<in> tags (heap s r) \<Longrightarrow> wait_for_parent env r wl s = Some (None, s)"
  by (simp add: wait_for_parent_def)

lemma wait_for_parent_cancelled:
  assumes "\<not> (wl \<and> ''target'' \<in> tags (heap s r))"
    and "\<forall>i<k. \<not> stopping_reads env (clock s + i)" and "stopping_reads env (clock s + k)"
    and "k = 0 \<or> \<not> resolved (heap s r)"
  shows "wait_for_parent env r wl s = Some (Some ScanCancelledError, s\<lparr>clock := clock s + k + 1\<rparr>)"
proof -
  have w: "wait_resolved (stopping_reads env) (resolved (heap s r)) (clock s)
             = Some (Some ScanCancelledError, clock s + k + 1)"
  proof (cases "k = 0")
    case True
    then show ?thesis using assms(3) wait_resolved_stopping [of "stopping_reads env" "clock s"] by simp
  next
    case False
    then have "\<not> resolved (heap s r)" using assms(4) by simp
    then show ?thesis
      using wait_resolved_cancelled [of k "stopping_reads env" "clock s"] assms(2,3) by simp
  qed
  show ?thesis using assms(1) w by (auto simp add: wait_for_parent_def)
qed

lemma wait_for_parent_never:
  assumes "\<not> (wl \<and> ''target'' \<in> tags (heap s r))"
    and "\<not> resolved (heap s r)" and "\<forall>i. \<not> stopping_reads env (clock s + i)"
  shows "wait_for_parent env r wl s = None"
proof -
  have "wait_resolved (stopping_reads env) (resolved (heap s r)) (clock s) = None"
    using wait_resolved_never [of "stopping_reads env" "clock s"] assms(2,3) by simp
  then show ?thesis using assms(1) by (auto simp add: wait_for_parent_def)
qed

lemma wait_for_parent_set:
  assumes "\<not> (wl \<and> ''target'' \<in> tags (heap s r))"
    and "resolved (heap s r)" and "\<not> stopping_reads env (clock s)"
  shows "wait_for_parent env r wl s
           = (case source (heap s r) of
                None \<Rightarrow> Some (Some OtherException, s\<lparr>clock := clock s + 1\<rparr>)
              | Some p \<Rightarrow> Some (None, upd_event r (\<lambda>e. e\<lparr>scope_distance := scope_distance (heap s p) + 1\<rparr>)
                                      (s\<lparr>clock := clock s + 1\<rparr>)))"
  using assms by (auto simp add: wait_for_parent_def wait_resolved_set split: option.splits)

lemma emit_event_body_resolved:
  assumes "\<not> skips_dns env (heap s r)" and "dns_outcome (resolve_event env (heap s r)) = Inr res"
  shows "emit_event_body env r opts s =
       (case wait_for_parent env r (whitelisted_verdict env (heap s r) res) (snd (resolve_and_tag env r s)) of
          None \<Rightarrow> None
        | Some (Some x, s2) \<Rightarrow> Some (Some x, False, s2)
        | Some (None, s2) \<Rightarrow>
            decide_and_emit env r opts
              (\<not> blacklisted_verdict env (heap s r) res \<and> ''blacklisted'' \<notin> tags_after_dns (heap s r) res)
              (Some (answer_children res))
              (scope_shepherding env r (whitelisted_verdict env (heap s r) res) s2))"
proof -
  obtain ra s1 where e: "resolve_and_tag env r s = (ra, s1)" by (metis surj_pair)
  have ra: "ra = Inr (\<not> blacklisted_verdict env (heap s r) res \<and> ''blacklisted'' \<notin> tags_after_dns (heap s r) res,
                   whitelisted_verdict env (heap s r) res, answer_children res)"
    using resolve_and_tag_result [OF assms(2)] e by simp
  show ?thesis
    using emit_event_body_unskipped [OF assms(1), of opts] unfolding e ra by simp
qed

lemma emit_event_body_any:
  assumes "r < next_ref s" and "emit_event_body env r opts s = Some (x, em, s')"
  shows "released (heap s' r) = released (heap s r)"
    and "resolved (heap s' r) = (skips_dns env (heap s r) \<or> resolved (seen_by_matchers env (heap s r)))"
proof -
  have "released (heap s' r) = released (heap s r)
      \<and> resolved (heap s' r) = (skips_dns env (heap s r) \<or> resolved (seen_by_matchers env (heap s r)))"
  proof (cases "skips_dns env (heap s r)")
    case True
    have n: "r < next_ref (set_resolved r s)" using assms(1) by (simp add: set_resolved_def upd_event_def)
    obtain exc em1 s1 where d: "decide_and_emit env r opts True None (set_resolved r s) = Some (exc, em1, s1)"
        and h: "heap s1 r = heap (set_resolved r s) r"
      using decide_and_emit_result [OF n, of env opts True None] by blast
    have "emit_event_body env r opts s = Some (exc, em1, s1)"
      using True d by (simp add: emit_event_body_def Let_def)
    then have "s' = s1" using assms(2) by simp
    then show ?thesis using h True by (simp add: set_resolved_def upd_event_def)
  next
    case False
    define s1 where "s1 = snd (resolve_and_tag env r s)"
    have m1: "marks_only r s s1" using resolve_and_tag_marks [of r s env] by (simp add: s1_def)
    have rs1: "resolved (heap s1 r) = resolved (seen_by_matchers env (heap s r))"
    proof (cases "dns_outcome (resolve_event env (heap s r))")
      case (Inl e)
      then show ?thesis using resolve_and_tag_Inl(2) [OF Inl]
        by (simp add: s1_def seen_by_matchers_def Let_def)
    next
      case (Inr res)
      then show ?thesis using resolve_and_tag_Inr(2) [OF Inr]
        by (simp add: s1_def seen_by_matchers_def Let_def)
    qed
    have rel1: "released (heap s1 r) = released (heap s r)" using marks_onlyD(1) [OF m1] .
    have n1: "next_ref s1 = next_ref s" using marks_onlyD(9) [OF m1] .
    show ?thesis
    proof (cases "dns_outcome (resolve_event env (heap s r))")
      case (Inl e)
      have "fst (resolve_and_tag env r s) = Inl e" using resolve_and_tag_Inl(1) [OF Inl] .
      then have "emit_event_body env r opts s = Some (Some e, False, s1)"
        using emit_event_body_unskipped [OF False, of opts]
        by (cases "resolve_and_tag env r s") (simp add: s1_def)
      then have "s' = s1" using assms(2) by simp
      then show ?thesis using rs1 rel1 False by simp
    next
      case (Inr res)
      define wl where "wl = whitelisted_verdict env (heap s r) res"
      note body = emit_event_body_resolved [OF False Inr, of opts, folded s1_def wl_def]
      obtain wx s2 where w: "wait_for_parent env r wl s1 = Some (wx, s2)"
        using body assms(2) by (cases "wait_for_parent env r wl s1") auto
      have m2: "marks_only r s1 s2" and rs2: "resolved (heap s2 r) = resolved (heap s1 r)"
        using wait_for_parent_marks [OF w] by simp_all
      have rel2: "released (heap s2 r) = released (heap s r)"
        using marks_onlyD(1) [OF m2] rel1 by simp
      have n2: "next_ref s2 = next_ref s" using marks_onlyD(9) [OF m2] n1 by simp
      show ?thesis
      proof (cases wx)
        case (Some e)
        then have "emit_event_body env r opts s = Some (Some e, False, s2)"
          using body w by simp
        then have "s' = s2" using assms(2) by simp
        then show ?thesis using rs1 rs2 rel2 False by simp
      next
        case None
        define s3 where "s3 = scope_shepherding env r wl s2"
        have m3: "marks_only r s2 s3" and rs3: "resolved (heap s3 r) = resolved (heap s2 r)"
          using scope_shepherding_marks [of r s2 env wl] by (simp_all add: s3_def)
        have rel3: "released (heap s3 r) = released (heap s r)"
          using marks_onlyD(1) [OF m3] rel2 by simp
        have n3: "r < next_ref s3" using marks_onlyD(9) [OF m3] n2 assms(1) by simp
        obtain exc em1 s4 where d: "decide_and_emit env r opts
              (\<not> blacklisted_verdict env (heap s r) res \<and> ''blacklisted'' \<notin> tags_after_dns (heap s r) res)
              (Some (answer_children res)) s3 = Some (exc, em1, s4)"
            and h: "heap s4 r = heap s3 r"
          using decide_and_emit_result [OF n3, of env opts _ "Some (answer_children res)"] by blast
        have "emit_event_body env r opts s = Some (exc, em1, s4)"
          using body w None d by (simp add: s3_def)
        then have "s' = s4" using assms(2) by simp
        then show ?thesis using h rs1 rs2 rs3 rel3 False by simp
      qed
    qed
  qed
  then show "released (heap s' r) = released (heap s r)"
    and "resolved (heap s' r) = (skips_dns env (heap s r) \<or> resolved (seen_by_matchers env (heap s r)))"
    by simp_all
qed

lemma emit_event_body_returns:
  assumes "r < next_ref s"
    and "skips_dns env (heap s r) \<or> (\<exists>e. dns_outcome (resolve_event env (heap s r)) = Inl e)
         \<or> resolved (seen_by_matchers env (heap s r))
         \<or> (\<exists>k. (\<forall>i<k. \<not> stopping_reads env (clock s + i)) \<and> stopping_reads env (clock s + k))"
  shows "emit_event_body env r opts s \<noteq> None"
proof (cases "skips_dns env (heap s r)")
  case True
  have n: "r < next_ref (set_resolved r s)" using assms(1) by (simp add: set_resolved_def upd_event_def)
  obtain exc em1 s1 where d: "decide_and_emit env r opts True None (set_resolved r s) = Some (exc, em1, s1)"
    using decide_and_emit_result [OF n, of env opts True None] by blast
  then show ?thesis using True by (simp add: emit_event_body_def Let_def)
next
  case False
  show ?thesis
  proof (cases "dns_outcome (resolve_event env (heap s r))")
    case (Inl e)
    have "fst (resolve_and_tag env r s) = Inl e" using resolve_and_tag_Inl(1) [OF Inl] .
    then show ?thesis
      using emit_event_body_unskipped [OF False, of opts]
      by (cases "resolve_and_tag env r s") simp
  next
    case (Inr res)
    define s1 where "s1 = snd (resolve_and_tag env r s)"
    define wl where "wl = whitelisted_verdict env (heap s r) res"
    note body = emit_event_body_resolved [OF False Inr, of opts, folded s1_def wl_def]
    note st = resolve_and_tag_state [OF Inr, folded s1_def]
    have c: "resolved (heap s1 r)
         \<or> (\<exists>k. (\<forall>i<k. \<not> stopping_reads env (clock s1 + i)) \<and> stopping_reads env (clock s1 + k))"
      using assms(2) False Inr st(2,3) by simp
    have "wait_for_parent env r wl s1 \<noteq> None"
    proof (cases "wl \<and> ''target'' \<in> tags (heap s1 r)")
      case True
      then show ?thesis by (simp add: wait_for_parent_skip)
    next
      case nw: False
      show ?thesis
      proof (cases "resolved (heap s1 r)")
        case True
        then show ?thesis by (rule wait_for_parent_returns)
      next
        case nr: False
        then obtain k where "\<forall>i<k. \<not> stopping_reads env (clock s1 + i)" "stopping_reads env (clock s1 + k)"
          using c by blast
        then show ?thesis using wait_for_parent_cancelled [OF nw, of k env] nr by simp
      qed
    qed
    then obtain wx s2 where w: "wait_for_parent env r wl s1 = Some (wx, s2)" by (metis not_None_eq surj_pair)
    have m1: "marks_only r s s1" using st(1) .
    have m2: "marks_only r s1 s2" using wait_for_parent_marks [OF w] by simp
    show ?thesis
    proof (cases wx)
      case (Some e)
      then show ?thesis using body w by simp
    next
      case None
      define s3 where "s3 = scope_shepherding env r wl s2"
      have m3: "marks_only r s2 s3" using scope_shepherding_marks [of r s2 env wl] by (simp add: s3_def)
      have n3: "r < next_ref s3"
        using marks_onlyD(9) [OF m3] marks_onlyD(9) [OF m2] marks_onlyD(9) [OF m1] assms(1) by simp
      obtain exc em1 s4 where d: "decide_and_emit env r opts
              (\<not> blacklisted_verdict env (heap s r) res \<and> ''blacklisted'' \<notin> tags_after_dns (heap s r) res)
              (Some (answer_children res)) s3 = Some (exc, em1, s4)"
        using decide_and_emit_result [OF n3, of env opts _ "Some (answer_children res)"] by blast
      then show ?thesis using body w None by (simp add: s3_def)
    qed
  qed
qed

lemma priv_emit_event_any:
  assumes "r < next_ref s" and "priv_emit_event env r opts s = Some (x, s')"
  shows "released (heap s' r) = released (heap s r) + 1"
    and "resolved (heap s' r) = (skips_dns env (heap s r) \<or> resolved (seen_by_matchers env (heap s r)))"
proof -
  obtain exc em s1 where b: "emit_event_body env r opts s = Some (exc, em, s1)"
    using assms(2) by (cases "emit_event_body env r opts s") (auto simp add: priv_emit_event_def)
  have f: "finish_run r (exc, em, s1) = (x, s')"
    using assms(2) b by (simp add: priv_emit_event_def)
  show "released (heap s' r) = released (heap s r) + 1"
    using finish_run_props [of r exc em s1] f emit_event_body_any(1) [OF assms(1) b] by simp
  show "resolved (heap s' r) = (skips_dns env (heap s r) \<or> resolved (seen_by_matchers env (heap s r)))"
    using finish_run_props [of r exc em s1] f emit_event_body_any(2) [OF assms(1) b] by simp
qed

lemma catch_blocks:
  assumes "\<not> stopping_reads env (clock s)" and "callback (s\<lparr>clock := clock s + 1\<rparr>) = None"
  shows "catch env True callback False None s = None"
  using assms by (simp add: catch_def Let_def)

lemma run_task_any:
  assumes "r < next_ref s" and "\<not> stopping_reads env (clock s)"
    and "run_task env (r, opts) s = Some (x, s')"
  shows "x = None" and "released (heap s' r) = released (heap s r) + 1"
    and "resolved (heap s' r) = (skips_dns env (heap s r) \<or> resolved (seen_by_matchers env (heap s r)))"
proof -
  define s0 where "s0 = s\<lparr>clock := clock s + 1\<rparr>"
  have n0: "r < next_ref s0" and h0: "heap s0 = heap s" using assms(1) by (simp_all add: s0_def)
  obtain exc s1 where p: "priv_emit_event env r opts s0 = Some (exc, s1)"
  proof (cases "priv_emit_event env r opts s0")
    case None
    then have "run_task env (r, opts) s = None"
      using catch_blocks [OF assms(2), of "priv_emit_event env r opts"] by (simp add: run_task_def s0_def)
    then show ?thesis using assms(3) by simp
  next
    case (Some res)
    then show ?thesis using that by (cases res) simp
  qed
  obtain lg sc where c: "catch env True (priv_emit_event env r opts) False None s
           = Some (None, s1\<lparr>logged := lg, stop_calls := sc,
                            stats_function_called := stats_function_called s1 + 1\<rparr>)"
    using catch_runs [of env s "priv_emit_event env r opts" exc s1] assms(2) p by (auto simp: s0_def)
  have x: "x = None" and s': "s' = s1\<lparr>logged := lg, stop_calls := sc,
                            stats_function_called := stats_function_called s1 + 1\<rparr>"
    using c assms(3) by (simp_all add: run_task_def)
  show "x = None" using x .
  show "released (heap s' r) = released (heap s r) + 1"
    using priv_emit_event_any(1) [OF n0 p] h0 by (simp add: s')
  show "resolved (heap s' r) = (skips_dns env (heap s r) \<or> resolved (seen_by_matchers env (heap s r)))"
    using priv_emit_event_any(2) [OF n0 p] h0 by (simp add: s')
qed

lemma run_task_returns:
  assumes "r < next_ref s" and "\<not> stopping_reads env (clock s)"
    and "skips_dns env (heap s r) \<or> (\<exists>e. dns_outcome (resolve_event env (heap s r)) = Inl e)
         \<or> resolved (seen_by_matchers env (heap s r))
         \<or> (\<exists>k. (\<forall>i<k. \<not> stopping_reads env (clock s + 1 + i)) \<and> stopping_reads env (clock s + 1 + k))"
  shows "run_task env (r, opts) s \<noteq> None"
proof -
  define s0 where "s0 = s\<lparr>clock := clock s + 1\<rparr>"
  have n0: "r < next_ref s0" and h0: "heap s0 = heap s" and c0: "clock s0 = clock s + 1"
    using assms(1) by (simp_all add: s0_def)
  have "emit_event_body env r opts s0 \<noteq> None"
    using emit_event_body_returns [OF n0, of env opts] assms(3) unfolding h0 c0 by simp
  then obtain res where "priv_emit_event env r opts s0 = Some res"
    by (cases "emit_event_body env r opts s0") (auto simp add: priv_emit_event_def)
  then obtain exc s1 where p: "priv_emit_event env r opts s0 = Some (exc, s1)" by (cases res) simp
  obtain lg sc where c: "catch env True (priv_emit_event env r opts) False None s
           = Some (None, s1\<lparr>logged := lg, stop_calls := sc,
                            stats_function_called := stats_function_called s1 + 1\<rparr>)"
    using catch_runs [of env s "priv_emit_event env r opts" exc s1] assms(2) p by (auto simp: s0_def)
  then show ?thesis by (simp add: run_task_def)
qed

lemma run_task_blocks:
  assumes "\<not> stopping_reads env (clock s)" and "\<not> skips_dns env (heap s r)"
    and "dns_outcome (resolve_event env (heap s r)) = Inr res"
    and "\<not> (whitelisted_verdict env (heap s r) res \<and> ''target'' \<in> tags_after_dns (heap s r) res)"
    and "\<not> resolved (seen_by_matchers env (heap s r))"
    and "\<forall>i. \<not> stopping_reads env (clock s + i)"
  shows "run_task env (r, opts) s = None"
proof -
  define s0 where "s0 = s\<lparr>clock := clock s + 1\<rparr>"
  have h0: "heap s0 = heap s" and c0: "clock s0 = clock s + 1" by (simp_all add: s0_def)
  define s1 where "s1 = snd (resolve_and_tag env r s0)"
  have sk: "\<not> skips_dns env (heap s0 r)" and o: "dns_outcome (resolve_event env (heap s0 r)) = Inr res"
    using assms(2,3) h0 by simp_all
  note body = emit_event_body_resolved [OF sk o, of opts, folded s1_def]
  note st = resolve_and_tag_state [OF o, folded s1_def]
  have nw: "\<not> (whitelisted_verdict env (heap s0 r) res \<and> ''target'' \<in> tags (heap s1 r))"
    using assms(4) st(4) h0 by simp
  have nr: "\<not> resolved (heap s1 r)" using assms(5) st(3) h0 by simp
  have ns: "\<forall>i. \<not> stopping_reads env (clock s1 + i)"
  proof
    fix i
    have "\<not> stopping_reads env (clock s + (1 + i))" using assms(6) by blast
    then show "\<not> stopping_reads env (clock s1 + i)" using st(2) c0 by (simp add: add.assoc)
  qed
  have "wait_for_parent env r (whitelisted_verdict env (heap s0 r) res) s1 = None"
    using wait_for_parent_never [OF nw nr ns] .
  then have "emit_event_body env r opts s0 = None" using body by simp
  then have "priv_emit_event env r opts s0 = None" by (simp add: priv_emit_event_def)
  then show ?thesis
    using catch_blocks [OF assms(1), of "priv_emit_event env r opts"] by (simp add: run_task_def s0_def)
qed

text \<open>
  Claim C1, as amended. On a precheck rejection, on the quick path (whether or not the
  queueing raises) and when the submission to the pool fails with an \<open>Exception\<close>,
  \<open>emit_event\<close> releases the permit exactly once and sets the completion signal, and
  gives nothing to the pool. Otherwise it submits the task and touches nothing else. When
  the pool runs the task and \<open>catch\<close> finds the scan not stopping: every run that
  returns, whichever way \<open>_emit_event\<close> ends (blacklist, veto by \<open>abort_if\<close>,
  duplicate, an exception, cancellation, success), has released the permit exactly once
  and no exception leaves \<open>catch\<close>; at its end the completion signal is set exactly when
  it was set before the run, or the run skipped DNS resolution (the manager then sets it
  itself), or the DNS collaborator set it. The run returns when it skips DNS resolution,
  when the collaborator raises, when the scan is stopping at the first poll of the wait,
  and when the completion signals of the event and of its parent are both set (an event
  without a source has no parent to wait for). It never returns, and so never releases
  the permit, when the event has to wait, neither its signal nor that of its parent is
  set, and the scan never stops. When \<open>catch\<close> finds the scan stopping, the run is
  skipped and the event is left as it was.
\<close>

theorem emit_event_permit_and_signal:
  "(\<not> fst (priv_event_precheck env s r)
      \<longrightarrow> released (heap (snd (emit_event env s r opts)) r) = released (heap s r) + 1
          \<and> resolved (heap (snd (emit_event env s r opts)) r)
          \<and> submitted (snd (emit_event env s r opts)) = submitted s)
   \<and> (fst (priv_event_precheck env s r) \<and> quick opts
      \<longrightarrow> released (heap (snd (emit_event env s r opts)) r) = released (heap s r) + 1
          \<and> resolved (heap (snd (emit_event env s r opts)) r)
          \<and> submitted (snd (emit_event env s r opts)) = submitted s)
   \<and> (fst (priv_event_precheck env s r) \<and> \<not> quick opts
        \<and> submit_task_raises env = Some e \<and> e \<noteq> KeyboardInterrupt
      \<longrightarrow> released (heap (snd (emit_event env s r opts)) r) = released (heap s r) + 1
          \<and> resolved (heap (snd (emit_event env s r opts)) r)
          \<and> submitted (snd (emit_event env s r opts)) = submitted s)
   \<and> (fst (priv_event_precheck env s r) \<and> \<not> quick opts \<and> submit_task_raises env = None
      \<longrightarrow> emit_event env s r opts = (None, s\<lparr>submitted := submitted s @ [(r, opts)]\<rparr>))
   \<and> (r < next_ref s \<and> \<not> stopping_reads env (clock s)
      \<longrightarrow> (\<forall>x s'. run_task env (r, opts) s = Some (x, s')
             \<longrightarrow> x = None \<and> released (heap s' r) = released (heap s r) + 1
                 \<and> resolved (heap s' r)
                     = (skips_dns env (heap s r) \<or> resolved (heap s r)
                        \<or> dns_sets_resolved (resolve_event env (heap s r)))))
   \<and> (r < next_ref s \<and> \<not> stopping_reads env (clock s)
        \<and> (skips_dns env (heap s r)
            \<or> (\<exists>x. dns_outcome (resolve_event env (heap s r)) = Inl x)
            \<or> stopping_reads env (clock s + 1)
            \<or> ((resolved (heap s r) \<or> dns_sets_resolved (resolve_event env (heap s r)))
                \<and> (case source (heap s r) of None \<Rightarrow> True | Some parent \<Rightarrow> resolved (heap s parent))))
      \<longrightarrow> run_task env (r, opts) s \<noteq> None)
   \<and> (\<not> skips_dns env (heap s r) \<and> dns_outcome (resolve_event env (heap s r)) = Inr res
        \<and> \<not> (whitelisted_verdict env (heap s r) res \<and> ''target'' \<in> tags_after_dns (heap s r) res)
        \<and> \<not> resolved (heap s r) \<and> \<not> dns_sets_resolved (resolve_event env (heap s r))
        \<and> source (heap s r) = Some parent \<and> \<not> resolved (heap s parent)
        \<and> (\<forall>i. \<not> stopping_reads env (clock s + i))
      \<longrightarrow> run_task env (r, opts) s = None)
   \<and> (stopping_reads env (clock s)
      \<longrightarrow> (\<exists>s'. run_task env (r, opts) s = Some (None, s') \<and> heap s' = heap s))"
proof (intro conjI impI allI)
  assume a: "\<not> fst (priv_event_precheck env s r)"
  have sub: "submitted (snd (priv_event_precheck env s r)) = submitted s"
    using precheck_state [of env s r] by auto
  show "released (heap (snd (emit_event env s r opts)) r) = released (heap s r) + 1"
    using emit_event_rejected [OF a] release_set_same(1) [of r "snd (priv_event_precheck env s r)"]
      precheck_heap [of env s r] by simp
  show "resolved (heap (snd (emit_event env s r opts)) r)"
    using emit_event_rejected [OF a] release_set_same(2) [of r "snd (priv_event_precheck env s r)"] by simp
  show "submitted (snd (emit_event env s r opts)) = submitted s"
    using emit_event_rejected [OF a] sub by (simp add: release_set_fields)
next
  assume a: "fst (priv_event_precheck env s r) \<and> quick opts"
  let ?q = "queue_event env s r"
  let ?s2 = "(if fst ?q = None \<or> fst ?q = Some KeyboardInterrupt then snd ?q
              else (snd ?q)\<lparr>logged := logged (snd ?q) @ [Error]\<rparr>)"
  have e: "snd (emit_event env s r opts) = set_resolved r (release_semaphore r ?s2)"
    using emit_event_quick_path [of env s r opts] a by simp
  have h2: "heap ?s2 = heap s" and sub2: "submitted ?s2 = submitted s"
    using queue_event_state [of env s r] by auto
  show "released (heap (snd (emit_event env s r opts)) r) = released (heap s r) + 1"
    unfolding e using release_set_same(1) [of r ?s2] h2 by simp
  show "resolved (heap (snd (emit_event env s r opts)) r)"
    unfolding e using release_set_same(2) [of r ?s2] .
  show "submitted (snd (emit_event env s r opts)) = submitted s"
    unfolding e using sub2 by (simp add: release_set_fields)
next
  assume a: "fst (priv_event_precheck env s r) \<and> \<not> quick opts
        \<and> submit_task_raises env = Some e \<and> e \<noteq> KeyboardInterrupt"
  let ?s1 = "(if e \<noteq> RuntimeError then s\<lparr>logged := logged s @ [Error]\<rparr> else s)"
  have e: "snd (emit_event env s r opts) = set_resolved r (release_semaphore r ?s1)"
    using emit_event_submit [of env s r opts] a by (cases e) simp_all
  have h1: "heap ?s1 = heap s" and sub1: "submitted ?s1 = submitted s" by simp_all
  show "released (heap (snd (emit_event env s r opts)) r) = released (heap s r) + 1"
    unfolding e using release_set_same(1) [of r ?s1] h1 by simp
  show "resolved (heap (snd (emit_event env s r opts)) r)"
    unfolding e using release_set_same(2) [of r ?s1] .
  show "submitted (snd (emit_event env s r opts)) = submitted s"
    unfolding e using sub1 by (simp add: release_set_fields)
next
  assume a: "fst (priv_event_precheck env s r) \<and> \<not> quick opts \<and> submit_task_raises env = None"
  then have "opts\<lparr>quick := False\<rparr> = opts" by simp
  then show "emit_event env s r opts = (None, s\<lparr>submitted := submitted s @ [(r, opts)]\<rparr>)"
    using emit_event_submit [of env s r opts] a by simp
next
  fix x s'
  assume a: "r < next_ref s \<and> \<not> stopping_reads env (clock s)"
    and b: "run_task env (r, opts) s = Some (x, s')"
  have n: "r < next_ref s" and ns: "\<not> stopping_reads env (clock s)" using a by simp_all
  show "x = None" using run_task_any(1) [OF n ns b] .
  show "released (heap s' r) = released (heap s r) + 1" using run_task_any(2) [OF n ns b] .
  show "resolved (heap s' r)
          = (skips_dns env (heap s r) \<or> resolved (heap s r)
             \<or> dns_sets_resolved (resolve_event env (heap s r)))"
    using run_task_any(3) [OF n ns b] by (simp add: seen_by_matchers_def Let_def)
next
  assume a: "r < next_ref s \<and> \<not> stopping_reads env (clock s)
        \<and> (skips_dns env (heap s r)
            \<or> (\<exists>x. dns_outcome (resolve_event env (heap s r)) = Inl x)
            \<or> stopping_reads env (clock s + 1)
            \<or> ((resolved (heap s r) \<or> dns_sets_resolved (resolve_event env (heap s r)))
                \<and> (case source (heap s r) of None \<Rightarrow> True | Some parent \<Rightarrow> resolved (heap s parent))))"
  have n: "r < next_ref s" and ns: "\<not> stopping_reads env (clock s)" using a by simp_all
  have "stopping_reads env (clock s + 1)
      \<Longrightarrow> \<exists>k. (\<forall>i<k. \<not> stopping_reads env (clock s + 1 + i)) \<and> stopping_reads env (clock s + 1 + k)"
    by (rule exI [of _ 0]) simp
  then have c: "skips_dns env (heap s r) \<or> (\<exists>e. dns_outcome (resolve_event env (heap s r)) = Inl e)
         \<or> resolved (seen_by_matchers env (heap s r))
         \<or> (\<exists>k. (\<forall>i<k. \<not> stopping_reads env (clock s + 1 + i)) \<and> stopping_reads env (clock s + 1 + k))"
    using a by (auto simp add: seen_by_matchers_def Let_def)
  show "run_task env (r, opts) s \<noteq> None" using run_task_returns [OF n ns c] .
next
  assume a: "\<not> skips_dns env (heap s r) \<and> dns_outcome (resolve_event env (heap s r)) = Inr res
        \<and> \<not> (whitelisted_verdict env (heap s r) res \<and> ''target'' \<in> tags_after_dns (heap s r) res)
        \<and> \<not> resolved (heap s r) \<and> \<not> dns_sets_resolved (resolve_event env (heap s r))
        \<and> source (heap s r) = Some parent \<and> \<not> resolved (heap s parent)
        \<and> (\<forall>i. \<not> stopping_reads env (clock s + i))"
  have ns: "\<not> stopping_reads env (clock s)" using a by (auto dest: spec [of _ 0])
  have nr: "\<not> resolved (seen_by_matchers env (heap s r))" using a by (simp add: seen_by_matchers_def Let_def)
  show "run_task env (r, opts) s = None"
    using run_task_blocks [OF ns _ _ _ nr, of res opts] a by blast
next
  assume a: "stopping_reads env (clock s)"
  show "\<exists>s'. run_task env (r, opts) s = Some (None, s') \<and> heap s' = heap s"
    using catch_skips [OF a, of "priv_emit_event env r opts"] by (simp add: run_task_def)
qed

theorem emit_event_permit_and_signal_witness:
  "released (heap (snd (emit_event ex_env (ex_state (ex_heap (1 := ex_event\<lparr>dummy := True\<rparr>))) 1 no_opts)) 1) = 1
   \<and> resolved (heap (snd (emit_event ex_env (ex_state (ex_heap (1 := ex_event\<lparr>dummy := True\<rparr>))) 1 no_opts)) 1)
   \<and> released (heap (snd (emit_event ex_env (ex_state ex_heap) 1 ex_quick_opts)) 1) = 1
   \<and> resolved (heap (snd (emit_event ex_env (ex_state ex_heap) 1 ex_quick_opts)) 1)
   \<and> released (heap (snd (emit_event (ex_env\<lparr>submit_task_raises := Some RuntimeError\<rparr>) (ex_state ex_heap) 1 no_opts)) 1) = 1
   \<and> resolved (heap (snd (emit_event (ex_env\<lparr>submit_task_raises := Some RuntimeError\<rparr>) (ex_state ex_heap) 1 no_opts)) 1)
   \<and> emit_event ex_env (ex_state ex_heap) 1 no_opts
        = (None, (ex_state ex_heap)\<lparr>submitted := [(1, no_opts)]\<rparr>)
   \<and> (\<exists>s'. run_task ex_env (1, no_opts) ((ex_state ex_heap)\<lparr>submitted := [(1, no_opts)]\<rparr>) = Some (None, s')
          \<and> released (heap s' 1) = 1 \<and> resolved (heap s' 1))
   \<and> (\<exists>s'. run_task ex_env_cancelling (1, no_opts) (ex_state ex_heap) = Some (None, s')
          \<and> released (heap s' 1) = 1 \<and> \<not> resolved (heap s' 1))
   \<and> run_task ex_env_silent_dns (5, no_opts) ex_state_orphan = None
   \<and> (\<exists>s'. run_task ex_env_stopping (1, no_opts) (ex_state ex_heap) = Some (None, s')
          \<and> heap s' = heap (ex_state ex_heap))"
proof -
  let ?d = "ex_state (ex_heap (1 := ex_event\<lparr>dummy := True\<rparr>))"
  let ?e3 = "ex_env\<lparr>submit_task_raises := Some RuntimeError\<rparr>"
  let ?s1 = "(ex_state ex_heap)\<lparr>submitted := [(1, no_opts)]\<rparr>"
  have pd: "\<not> fst (priv_event_precheck ex_env ?d 1)"
    by (simp add: priv_event_precheck_def Let_def ex_state_def ex_event_def)
  have p3: "priv_event_precheck ?e3 (ex_state ex_heap) 1 = (True, ex_state ex_heap)"
    by (simp add: priv_event_precheck_def Let_def is_duplicate_event_def ex_env_def ex_state_def
          ex_heap_def ex_event_def ex_scan_module_def ex_output_module_def)
  have rel0: "released (heap ?d 1) = 0" "released (heap (ex_state ex_heap) 1) = 0"
    "released (heap ?s1 1) = 0" "submitted (ex_state ex_heap) = []"
    by (simp_all add: ex_state_def ex_heap_def ex_event_def)
  have c1: "released (heap (snd (emit_event ex_env ?d 1 no_opts)) 1) = released (heap ?d 1) + 1
      \<and> resolved (heap (snd (emit_event ex_env ?d 1 no_opts)) 1)"
    using emit_event_permit_and_signal [where env = ex_env and s = ?d and r = 1 and opts = no_opts,
        THEN conjunct1, rule_format, OF pd] by simp
  have h2: "fst (priv_event_precheck ex_env (ex_state ex_heap) 1) \<and> quick ex_quick_opts"
    using ex_precheck by (simp add: ex_quick_opts_def)
  have c2: "released (heap (snd (emit_event ex_env (ex_state ex_heap) 1 ex_quick_opts)) 1)
        = released (heap (ex_state ex_heap) 1) + 1
      \<and> resolved (heap (snd (emit_event ex_env (ex_state ex_heap) 1 ex_quick_opts)) 1)"
    using emit_event_permit_and_signal [where env = ex_env and s = "ex_state ex_heap" and r = 1
        and opts = ex_quick_opts, THEN conjunct2, THEN conjunct1, rule_format, OF h2]
    by simp
  have h3: "fst (priv_event_precheck ?e3 (ex_state ex_heap) 1) \<and> \<not> quick no_opts
        \<and> submit_task_raises ?e3 = Some RuntimeError \<and> RuntimeError \<noteq> KeyboardInterrupt"
    using p3 by (simp add: no_opts_def)
  have c3: "released (heap (snd (emit_event ?e3 (ex_state ex_heap) 1 no_opts)) 1)
        = released (heap (ex_state ex_heap) 1) + 1
      \<and> resolved (heap (snd (emit_event ?e3 (ex_state ex_heap) 1 no_opts)) 1)"
    using emit_event_permit_and_signal [where env = ?e3 and s = "ex_state ex_heap" and r = 1 and opts = no_opts
        and e = RuntimeError, THEN conjunct2, THEN conjunct2, THEN conjunct1, rule_format, OF h3]
    by simp
  have h4: "fst (priv_event_precheck ex_env (ex_state ex_heap) 1) \<and> \<not> quick no_opts
        \<and> submit_task_raises ex_env = None"
    using ex_precheck by (simp add: no_opts_def ex_env_def)
  have c4: "emit_event ex_env (ex_state ex_heap) 1 no_opts
        = (None, (ex_state ex_heap)\<lparr>submitted := submitted (ex_state ex_heap) @ [(1, no_opts)]\<rparr>)"
    using emit_event_permit_and_signal [where env = ex_env and s = "ex_state ex_heap" and r = 1
        and opts = no_opts, THEN conjunct2, THEN conjunct2, THEN conjunct2, THEN conjunct1, rule_format, OF h4]
    by simp
  note T5 = emit_event_permit_and_signal [where env = ex_env and s = ?s1 and r = 1 and opts = no_opts,
      THEN conjunct2, THEN conjunct2, THEN conjunct2, THEN conjunct2]
  have h5: "1 < next_ref ?s1 \<and> \<not> stopping_reads ex_env (clock ?s1)"
    by (simp add: ex_state_def ex_env_def)
  have h5b: "(resolved (heap ?s1 1) \<or> dns_sets_resolved (resolve_event ex_env (heap ?s1 1)))
                \<and> (case source (heap ?s1 1) of None \<Rightarrow> True | Some parent \<Rightarrow> resolved (heap ?s1 parent))"
    by (simp add: ex_state_def ex_env_def ex_heap_def ex_event_def)
  have "run_task ex_env (1, no_opts) ?s1 \<noteq> None"
    using T5 [THEN conjunct2, THEN conjunct1, rule_format] h5 h5b by blast
  then obtain x5 s5 where r5: "run_task ex_env (1, no_opts) ?s1 = Some (x5, s5)" by (metis not_None_eq surj_pair)
  have p5: "x5 = None \<and> released (heap s5 1) = released (heap ?s1 1) + 1
      \<and> resolved (heap s5 1) = (skips_dns ex_env (heap ?s1 1) \<or> resolved (heap ?s1 1)
                        \<or> dns_sets_resolved (resolve_event ex_env (heap ?s1 1)))"
    using T5 [THEN conjunct1, rule_format, OF h5 r5] by simp
  have c5: "\<exists>s'. run_task ex_env (1, no_opts) ?s1 = Some (None, s')
          \<and> released (heap s' 1) = 1 \<and> resolved (heap s' 1)"
    using r5 p5 h5b unfolding rel0 by auto
  note T6 = emit_event_permit_and_signal [where env = ex_env_cancelling and s = "ex_state ex_heap" and r = 1
      and opts = no_opts, THEN conjunct2, THEN conjunct2, THEN conjunct2, THEN conjunct2]
  have h6: "1 < next_ref (ex_state ex_heap) \<and> \<not> stopping_reads ex_env_cancelling (clock (ex_state ex_heap))"
    and h6b: "stopping_reads ex_env_cancelling (clock (ex_state ex_heap) + 1)"
    and h6c: "\<not> skips_dns ex_env_cancelling (heap (ex_state ex_heap) 1)"
      "\<not> resolved (heap (ex_state ex_heap) 1)"
      "\<not> dns_sets_resolved (resolve_event ex_env_cancelling (heap (ex_state ex_heap) 1))"
    by (simp_all add: ex_env_cancelling_def ex_env_silent_dns_def ex_env_def ex_state_def ex_heap_def
          ex_event_def skips_dns_def)
  have "run_task ex_env_cancelling (1, no_opts) (ex_state ex_heap) \<noteq> None"
    using T6 [THEN conjunct2, THEN conjunct1, rule_format] h6 h6b by blast
  then obtain x6 s6 where r6: "run_task ex_env_cancelling (1, no_opts) (ex_state ex_heap) = Some (x6, s6)"
    by (metis not_None_eq surj_pair)
  have p6: "x6 = None \<and> released (heap s6 1) = released (heap (ex_state ex_heap) 1) + 1
      \<and> resolved (heap s6 1) = (skips_dns ex_env_cancelling (heap (ex_state ex_heap) 1)
             \<or> resolved (heap (ex_state ex_heap) 1)
             \<or> dns_sets_resolved (resolve_event ex_env_cancelling (heap (ex_state ex_heap) 1)))"
    using T6 [THEN conjunct1, rule_format, OF h6 r6] by simp
  have c6: "\<exists>s'. run_task ex_env_cancelling (1, no_opts) (ex_state ex_heap) = Some (None, s')
          \<and> released (heap s' 1) = 1 \<and> \<not> resolved (heap s' 1)"
    using r6 p6 h6c unfolding rel0 by auto
  have h7: "\<not> skips_dns ex_env_silent_dns (heap ex_state_orphan 5)
        \<and> dns_outcome (resolve_event ex_env_silent_dns (heap ex_state_orphan 5)) = Inr ex_dns_result
        \<and> \<not> (whitelisted_verdict ex_env_silent_dns (heap ex_state_orphan 5) ex_dns_result
              \<and> ''target'' \<in> tags_after_dns (heap ex_state_orphan 5) ex_dns_result)
        \<and> \<not> resolved (heap ex_state_orphan 5)
        \<and> \<not> dns_sets_resolved (resolve_event ex_env_silent_dns (heap ex_state_orphan 5))
        \<and> source (heap ex_state_orphan 5) = Some 0 \<and> \<not> resolved (heap ex_state_orphan 0)
        \<and> (\<forall>i. \<not> stopping_reads ex_env_silent_dns (clock ex_state_orphan + i))"
    by (simp add: ex_env_silent_dns_def ex_env_def ex_state_orphan_def ex_state_def ex_heap_def
          ex_dns_event_def ex_event_def skips_dns_def whitelisted_verdict_def ex_dns_result_def)
  have c7: "run_task ex_env_silent_dns (5, no_opts) ex_state_orphan = None"
    using emit_event_permit_and_signal [where env = ex_env_silent_dns and s = ex_state_orphan and r = 5
        and opts = no_opts and res = ex_dns_result and parent = 0,
        THEN conjunct2, THEN conjunct2, THEN conjunct2, THEN conjunct2, THEN conjunct2, THEN conjunct2,
        THEN conjunct1, rule_format, OF h7] .
  have h8: "stopping_reads ex_env_stopping (clock (ex_state ex_heap))"
    by (simp add: ex_env_stopping_def)
  have c8: "\<exists>s'. run_task ex_env_stopping (1, no_opts) (ex_state ex_heap) = Some (None, s')
          \<and> heap s' = heap (ex_state ex_heap)"
    using emit_event_permit_and_signal [where env = ex_env_stopping and s = "ex_state ex_heap" and r = 1
        and opts = no_opts,
        THEN conjunct2, THEN conjunct2, THEN conjunct2, THEN conjunct2, THEN conjunct2, THEN conjunct2,
        THEN conjunct2, rule_format, OF h8] .
  show ?thesis
    using c1 c2 c3 c4 c5 c6 c7 c8 unfolding rel0 by simp
qed

text \<open>
  Claim C2 does not hold for every event. First run: a \<open>DNS_NAME\<close> event with a host
  is whitelisted and its hash is already in the accepted ledger (the precheck does not
  test \<open>DNS_NAME\<close> events for duplicates); it lacks the tag \<open>"target"\<close>, so its scope
  distance becomes that of its parent plus one, which is 1; scope shepherding then finds a
  duplicate and does not call \<open>make_in_scope\<close>: the run ends with scope distance 1,
  not 0. Second run: DNS resolution is switched off, there is no blacklist and the event
  carries the tag \<open>"target"\<close>, so \<open>_emit_event\<close> skips DNS resolution and with it
  the wait and scope shepherding: the whitelisted event keeps its scope distance 3, and
  \<open>scan.stopping\<close> has not been read. Third run: an event that is not whitelisted and
  has no host takes the scope distance of its parent plus one, which is 1, and scope
  shepherding then makes it in-scope: the run ends with scope distance 0.
\<close>

theorem scope_distance_counterexample:
  "whitelisted ex_env_whitelisting (seen_by_matchers ex_env_whitelisting (heap ex_state_seen 5))
   \<and> fst (priv_event_precheck ex_env_whitelisting ex_state_seen 5)
   \<and> (\<exists>s'. priv_emit_event ex_env_whitelisting 5 no_opts ex_state_seen = Some (None, s')
          \<and> scope_distance (heap s' 5) = 1 \<and> released (heap s' 5) = 1)
   \<and> whitelisted ex_env_skipping (heap ex_state_target 5)
   \<and> fst (priv_event_precheck ex_env_skipping ex_state_target 5)
   \<and> (\<exists>s'. priv_emit_event ex_env_skipping 5 no_opts ex_state_target = Some (None, s')
          \<and> scope_distance (heap s' 5) = 3 \<and> clock s' = clock ex_state_target)
   \<and> \<not> whitelisted ex_env (seen_by_matchers ex_env (heap ex_state_hostless 5))
   \<and> \<not> event_whitelisted_dns ex_dns_result
   \<and> source (heap ex_state_hostless 5) = Some 0 \<and> scope_distance (heap ex_state_hostless 0) = 0
   \<and> (\<exists>s'. priv_emit_event ex_env 5 no_opts ex_state_hostless = Some (None, s')
          \<and> scope_distance (heap s' 5) = 0)"
  by (simp add: run_defs ex_defs ex_env_skipping_def ex_state_target_def ex_state_hostless_def)

lemma emit_event_body_shepherded:
  assumes "r < next_ref s" and "\<not> skips_dns env (heap s r)"
    and "dns_outcome (resolve_event env (heap s r)) = Inr res"
    and "wait_for_parent env r (whitelisted_verdict env (heap s r) res) (snd (resolve_and_tag env r s))
           = Some (None, s2)"
  shows "\<exists>x em s'. emit_event_body env r opts s = Some (x, em, s')
           \<and> heap s' r = heap (scope_shepherding env r (whitelisted_verdict env (heap s r) res) s2) r
           \<and> scope_distance (heap s' r)
               = (if host (heap s r) = None
                     \<or> (whitelisted_verdict env (heap s r) res
                         \<and> \<not> fst (is_duplicate_event (py_hash env) s r False))
                  then 0 else scope_distance (heap s2 r))"
proof -
  define s1 where "s1 = snd (resolve_and_tag env r s)"
  define wl where "wl = whitelisted_verdict env (heap s r) res"
  note body = emit_event_body_resolved [OF assms(2,3), of opts, folded s1_def wl_def]
  have w: "wait_for_parent env r wl s1 = Some (None, s2)" using assms(4) by (simp add: s1_def wl_def)
  have m1: "marks_only r s s1" using resolve_and_tag_marks [of r s env] by (simp add: s1_def)
  have m2: "marks_only r s1 s2" using wait_for_parent_marks [OF w] by simp
  have m02: "marks_only r s s2" using m1 m2 by (rule marks_only_trans)
  define s3 where "s3 = scope_shepherding env r wl s2"
  have m3: "marks_only r s2 s3" using scope_shepherding_marks [of r s2 env wl] by (simp add: s3_def)
  have n3: "r < next_ref s3"
    using marks_onlyD(9) [OF m3] marks_onlyD(9) [OF m02] assms(1) by simp
  obtain exc em1 s4 where d: "decide_and_emit env r opts
          (\<not> blacklisted_verdict env (heap s r) res \<and> ''blacklisted'' \<notin> tags_after_dns (heap s r) res)
          (Some (answer_children res)) s3 = Some (exc, em1, s4)"
      and h: "heap s4 r = heap s3 r"
    using decide_and_emit_result [OF n3, of env opts _ "Some (answer_children res)"] by blast
  have b: "emit_event_body env r opts s = Some (exc, em1, s4)"
    using body w d by (simp add: s3_def)
  have sd: "scope_distance (heap s3 r)
      = (if host (heap s r) = None \<or> (wl \<and> \<not> fst (is_duplicate_event (py_hash env) s r False))
         then 0 else scope_distance (heap s2 r))"
    unfolding s3_def scope_shepherding_distance
    using marks_onlyD(7) [OF m02] marks_only_dup [OF m02, of "py_hash env"] by simp
  show ?thesis using b h sd unfolding wl_def s3_def by simp
qed

text \<open>
  Claim C2, as amended, for the \<open>try\<close> block of \<open>_emit_event\<close> on the path where DNS
  resolution is not skipped and the DNS collaborator returns. A whitelisted event that
  carries the tag \<open>"target"\<close> does not wait, whether the scan is stopping or not. Any
  other event polls: each round reads \<open>scan.stopping\<close> first, and the block ends with
  \<open>ScanCancelledError\<close> at the first round that finds the scan stopping, the scope
  distance untouched. When the wait ends, the event takes the scope distance of its parent
  plus one. Scope shepherding then sets the scope distance to 0 for every event without a
  host and for every whitelisted event that is not a duplicate in the accepted ledger;
  every other event keeps what it has: whenever the block ends without an exception, the
  scope distance of an event that had to wait is 0 in those two cases and that of its
  parent plus one otherwise. When the wait ends is stated for the runs in which the
  completion signal of the event and that of its parent agree: with both set the wait ends
  at the first poll, with neither set it goes on, without end if the scan never stops.
\<close>

theorem emit_event_body_scope:
  assumes "r < next_ref s" and "\<not> skips_dns env (heap s r)"
    and "dns_outcome (resolve_event env (heap s r)) = Inr res"
  shows "(whitelisted_verdict env (heap s r) res \<and> ''target'' \<in> tags_after_dns (heap s r) res
      \<longrightarrow> (\<exists>x em s'. emit_event_body env r opts s = Some (x, em, s')
             \<and> scope_distance (heap s' r)
                 = (if host (heap s r) = None \<or> \<not> fst (is_duplicate_event (py_hash env) s r False)
                    then 0 else scope_distance (heap s r))))
   \<and> (\<not> (whitelisted_verdict env (heap s r) res \<and> ''target'' \<in> tags_after_dns (heap s r) res)
        \<and> source (heap s r) = Some parent
        \<and> (resolved (heap s r) \<or> dns_sets_resolved (resolve_event env (heap s r)))
        \<and> resolved (heap s parent)
        \<and> \<not> stopping_reads env (clock s)
      \<longrightarrow> (\<exists>x em s'. emit_event_body env r opts s = Some (x, em, s')
             \<and> scope_distance (heap s' r)
                 = (if host (heap s r) = None
                       \<or> (whitelisted_verdict env (heap s r) res
                           \<and> \<not> fst (is_duplicate_event (py_hash env) s r False))
                    then 0 else scope_distance (heap s parent) + 1)))
   \<and> (\<not> (whitelisted_verdict env (heap s r) res \<and> ''target'' \<in> tags_after_dns (heap s r) res)
        \<and> (\<forall>i<k. \<not> stopping_reads env (clock s + i)) \<and> stopping_reads env (clock s + k)
        \<and> (k = 0 \<or> (\<not> resolved (heap s r) \<and> \<not> dns_sets_resolved (resolve_event env (heap s r))
                      \<and> source (heap s r) = Some parent \<and> \<not> resolved (heap s parent)))
      \<longrightarrow> (\<exists>s'. emit_event_body env r opts s = Some (Some ScanCancelledError, False, s')
             \<and> clock s' = clock s + k + 1
             \<and> scope_distance (heap s' r) = scope_distance (heap s r)))
   \<and> (\<not> (whitelisted_verdict env (heap s r) res \<and> ''target'' \<in> tags_after_dns (heap s r) res)
        \<and> \<not> resolved (heap s r) \<and> \<not> dns_sets_resolved (resolve_event env (heap s r))
        \<and> source (heap s r) = Some parent \<and> \<not> resolved (heap s parent)
        \<and> (\<forall>i. \<not> stopping_reads env (clock s + i))
      \<longrightarrow> emit_event_body env r opts s = None)
   \<and> (\<not> (whitelisted_verdict env (heap s r) res \<and> ''target'' \<in> tags_after_dns (heap s r) res)
        \<and> source (heap s r) = Some parent
      \<longrightarrow> (\<forall>em s'. emit_event_body env r opts s = Some (None, em, s')
             \<longrightarrow> scope_distance (heap s' r)
                   = (if host (heap s r) = None
                         \<or> (whitelisted_verdict env (heap s r) res
                             \<and> \<not> fst (is_duplicate_event (py_hash env) s r False))
                      then 0 else scope_distance (heap s parent) + 1)))"
proof -
  define s1 where "s1 = snd (resolve_and_tag env r s)"
  define wl where "wl = whitelisted_verdict env (heap s r) res"
  note body = emit_event_body_resolved [OF assms(2,3), of opts, folded s1_def wl_def]
  note st = resolve_and_tag_state [OF assms(3), folded s1_def]
  have own: "resolved (heap s1 r) = (resolved (heap s r) \<or> dns_sets_resolved (resolve_event env (heap s r)))"
    using st(3) by (simp add: seen_by_matchers_def Let_def)
  have src: "source (heap s1 r) = source (heap s r)" using marks_onlyD(5) [OF st(1)] .
  have first: "\<exists>x em s'. emit_event_body env r opts s = Some (x, em, s')
             \<and> scope_distance (heap s' r)
                 = (if host (heap s r) = None \<or> \<not> fst (is_duplicate_event (py_hash env) s r False)
                    then 0 else scope_distance (heap s r))"
    if a: "wl \<and> ''target'' \<in> tags_after_dns (heap s r) res"
  proof -
    have w: "wait_for_parent env r wl s1 = Some (None, s1)"
      using a st(4) by (simp add: wait_for_parent_skip)
    show ?thesis
      using emit_event_body_shepherded [OF assms, of s1 opts] w a st(5) [of r]
      unfolding wl_def [symmetric] s1_def [symmetric] by auto
  qed
  have second: "\<exists>x em s'. emit_event_body env r opts s = Some (x, em, s')
             \<and> scope_distance (heap s' r)
                 = (if host (heap s r) = None
                       \<or> (wl \<and> \<not> fst (is_duplicate_event (py_hash env) s r False))
                    then 0 else scope_distance (heap s parent) + 1)"
    if a: "\<not> (wl \<and> ''target'' \<in> tags_after_dns (heap s r) res)
        \<and> source (heap s r) = Some parent
        \<and> (resolved (heap s r) \<or> dns_sets_resolved (resolve_event env (heap s r)))
        \<and> resolved (heap s parent)
        \<and> \<not> stopping_reads env (clock s)"
  proof -
    have nw: "\<not> (wl \<and> ''target'' \<in> tags (heap s1 r))" using a st(4) by simp
    have rs: "resolved (heap s1 r)" using a own by simp
    have ns: "\<not> stopping_reads env (clock s1)" using a st(2) by simp
    define s2 where "s2 = upd_event r (\<lambda>e. e\<lparr>scope_distance := scope_distance (heap s1 parent) + 1\<rparr>)
                                      (s1\<lparr>clock := clock s1 + 1\<rparr>)"
    have w: "wait_for_parent env r wl s1 = Some (None, s2)"
      using wait_for_parent_set [OF nw rs ns] src a by (simp add: s2_def)
    have sd2: "scope_distance (heap s2 r) = scope_distance (heap s parent) + 1"
      using st(5) [of parent] by (simp add: s2_def upd_event_def)
    show ?thesis
      using emit_event_body_shepherded [OF assms, of s2 opts] w sd2
      unfolding wl_def [symmetric] s1_def [symmetric] by auto
  qed
  have third: "\<exists>s'. emit_event_body env r opts s = Some (Some ScanCancelledError, False, s')
             \<and> clock s' = clock s + k + 1
             \<and> scope_distance (heap s' r) = scope_distance (heap s r)"
    if a: "\<not> (wl \<and> ''target'' \<in> tags_after_dns (heap s r) res)
        \<and> (\<forall>i<k. \<not> stopping_reads env (clock s + i)) \<and> stopping_reads env (clock s + k)
        \<and> (k = 0 \<or> (\<not> resolved (heap s r) \<and> \<not> dns_sets_resolved (resolve_event env (heap s r))
                      \<and> source (heap s r) = Some parent \<and> \<not> resolved (heap s parent)))"
  proof -
    have nw: "\<not> (wl \<and> ''target'' \<in> tags (heap s1 r))" using a st(4) by simp
    have p1: "\<forall>i<k. \<not> stopping_reads env (clock s1 + i)" and p2: "stopping_reads env (clock s1 + k)"
      and p3: "k = 0 \<or> \<not> resolved (heap s1 r)"
      using a st(2) own by auto
    have w: "wait_for_parent env r wl s1 = Some (Some ScanCancelledError, s1\<lparr>clock := clock s1 + k + 1\<rparr>)"
      using wait_for_parent_cancelled [OF nw p1 p2 p3] .
    have "emit_event_body env r opts s = Some (Some ScanCancelledError, False, s1\<lparr>clock := clock s1 + k + 1\<rparr>)"
      using body w by simp
    then show ?thesis using st(2) st(5) [of r] by simp
  qed
  have fourth: "emit_event_body env r opts s = None"
    if a: "\<not> (wl \<and> ''target'' \<in> tags_after_dns (heap s r) res)
        \<and> \<not> resolved (heap s r) \<and> \<not> dns_sets_resolved (resolve_event env (heap s r))
        \<and> source (heap s r) = Some parent \<and> \<not> resolved (heap s parent)
        \<and> (\<forall>i. \<not> stopping_reads env (clock s + i))"
  proof -
    have nw: "\<not> (wl \<and> ''target'' \<in> tags (heap s1 r))" using a st(4) by simp
    have nr: "\<not> resolved (heap s1 r)" using a own by simp
    have ns: "\<forall>i. \<not> stopping_reads env (clock s1 + i)" using a st(2) by simp
    have "wait_for_parent env r wl s1 = None" using wait_for_parent_never [OF nw nr ns] .
    then show ?thesis using body by simp
  qed
  have fifth: "scope_distance (heap s' r)
                   = (if host (heap s r) = None
                         \<or> (wl \<and> \<not> fst (is_duplicate_event (py_hash env) s r False))
                      then 0 else scope_distance (heap s parent) + 1)"
    if a: "\<not> (wl \<and> ''target'' \<in> tags_after_dns (heap s r) res) \<and> source (heap s r) = Some parent"
      and b: "emit_event_body env r opts s = Some (None, em, s')" for em s'
  proof -
    have nw: "\<not> (wl \<and> ''target'' \<in> tags (heap s1 r))" using a st(4) by simp
    obtain wx s2 where w: "wait_for_parent env r wl s1 = Some (wx, s2)"
      using body b by (cases "wait_for_parent env r wl s1") auto
    have wx: "wx = None"
    proof (cases wx)
      case None
      then show ?thesis .
    next
      case (Some e)
      then have "emit_event_body env r opts s = Some (Some e, False, s2)" using body w by simp
      then show ?thesis using b by simp
    qed
    have src1: "source (heap s1 r) = Some parent" using a src by simp
    obtain clk where s2: "s2 = upd_event r (\<lambda>e. e\<lparr>scope_distance := scope_distance (heap s1 parent) + 1\<rparr>)
                                (s1\<lparr>clock := clk\<rparr>)"
      using w wx nw src1
      by (auto simp add: wait_for_parent_def split: option.splits prod.splits if_splits)
    have sd2: "scope_distance (heap s2 r) = scope_distance (heap s parent) + 1"
      using st(5) [of parent] by (simp add: s2 upd_event_def)
    have w': "wait_for_parent env r wl s1 = Some (None, s2)" using w wx by simp
    obtain x' em' s'' where b': "emit_event_body env r opts s = Some (x', em', s'')"
        and d: "scope_distance (heap s'' r)
               = (if host (heap s r) = None
                     \<or> (wl \<and> \<not> fst (is_duplicate_event (py_hash env) s r False))
                  then 0 else scope_distance (heap s2 r))"
      using emit_event_body_shepherded [OF assms, of s2 opts] w'
      unfolding wl_def [symmetric] s1_def [symmetric] by blast
    have "s'' = s'" using b b' by simp
    then show ?thesis using d sd2 by simp
  qed
  show ?thesis
    using first second third fourth fifth unfolding wl_def by blast
qed

theorem emit_event_body_scope_witness:
  "(\<exists>x em s'. emit_event_body ex_env_whitelisting 5 no_opts ex_state_target = Some (x, em, s')
        \<and> scope_distance (heap s' 5) = 0)
   \<and> (\<exists>x em s'. emit_event_body ex_env 5 no_opts ex_state_dns = Some (x, em, s')
        \<and> scope_distance (heap s' 5) = 1)
   \<and> (\<exists>s'. emit_event_body ex_env_stalling 5 no_opts ex_state_orphan
               = Some (Some ScanCancelledError, False, s')
        \<and> clock s' = 3 \<and> scope_distance (heap s' 5) = 3)
   \<and> emit_event_body ex_env_silent_dns 5 no_opts ex_state_orphan = None
   \<and> (\<exists>em s'. emit_event_body ex_env 5 no_opts ex_state_hostless = Some (None, em, s')
        \<and> scope_distance (heap s' 5) = 0)"
proof -
  have n1: "5 < next_ref ex_state_target" and k1: "\<not> skips_dns ex_env_whitelisting (heap ex_state_target 5)"
    and o1: "dns_outcome (resolve_event ex_env_whitelisting (heap ex_state_target 5)) = Inr ex_dns_result"
    by (simp_all add: ex_state_target_def ex_state_def ex_env_whitelisting_def ex_env_def skips_dns_def)
  have h1: "whitelisted_verdict ex_env_whitelisting (heap ex_state_target 5) ex_dns_result
      \<and> ''target'' \<in> tags_after_dns (heap ex_state_target 5) ex_dns_result"
    by (simp add: whitelisted_verdict_def tags_after_dns_def ex_env_whitelisting_def ex_state_target_def
          ex_state_def ex_dns_event_def ex_event_def)
  have v1: "(if host (heap ex_state_target 5) = None
               \<or> \<not> fst (is_duplicate_event (py_hash ex_env_whitelisting) ex_state_target 5 False)
            then 0 else scope_distance (heap ex_state_target 5)) = 0"
    by (simp add: is_duplicate_event_def Let_def ex_state_target_def ex_state_def)
  have c1: "\<exists>x em s'. emit_event_body ex_env_whitelisting 5 no_opts ex_state_target = Some (x, em, s')
        \<and> scope_distance (heap s' 5) = 0"
    using emit_event_body_scope [OF n1 k1 o1, where opts = no_opts, THEN conjunct1] h1 unfolding v1 by blast
  have n2: "5 < next_ref ex_state_dns" and k2: "\<not> skips_dns ex_env (heap ex_state_dns 5)"
    and o2: "dns_outcome (resolve_event ex_env (heap ex_state_dns 5)) = Inr ex_dns_result"
    by (simp_all add: ex_state_dns_def ex_state_def ex_env_def skips_dns_def)
  have h2: "\<not> (whitelisted_verdict ex_env (heap ex_state_dns 5) ex_dns_result
              \<and> ''target'' \<in> tags_after_dns (heap ex_state_dns 5) ex_dns_result)
        \<and> source (heap ex_state_dns 5) = Some 0
        \<and> (resolved (heap ex_state_dns 5) \<or> dns_sets_resolved (resolve_event ex_env (heap ex_state_dns 5)))
        \<and> resolved (heap ex_state_dns 0)
        \<and> \<not> stopping_reads ex_env (clock ex_state_dns)"
    by (simp add: whitelisted_verdict_def ex_env_def ex_dns_result_def ex_state_dns_def ex_state_def
          ex_heap_def ex_dns_event_def ex_event_def)
  have v2: "(if host (heap ex_state_dns 5) = None
                \<or> (whitelisted_verdict ex_env (heap ex_state_dns 5) ex_dns_result
                    \<and> \<not> fst (is_duplicate_event (py_hash ex_env) ex_state_dns 5 False))
             then 0 else scope_distance (heap ex_state_dns 0) + 1) = 1"
    by (simp add: whitelisted_verdict_def ex_env_def ex_dns_result_def ex_state_dns_def ex_state_def
          ex_heap_def ex_dns_event_def ex_event_def)
  have c2: "\<exists>x em s'. emit_event_body ex_env 5 no_opts ex_state_dns = Some (x, em, s')
        \<and> scope_distance (heap s' 5) = 1"
    using emit_event_body_scope [OF n2 k2 o2, where opts = no_opts and parent = 0,
        THEN conjunct2, THEN conjunct1] h2 unfolding v2 by blast
  have n3: "5 < next_ref ex_state_orphan" and k3: "\<not> skips_dns ex_env_stalling (heap ex_state_orphan 5)"
    and o3: "dns_outcome (resolve_event ex_env_stalling (heap ex_state_orphan 5)) = Inr ex_dns_result"
    by (simp_all add: ex_state_orphan_def ex_state_def ex_env_stalling_def ex_env_silent_dns_def ex_env_def
          skips_dns_def)
  have h3: "\<not> (whitelisted_verdict ex_env_stalling (heap ex_state_orphan 5) ex_dns_result
              \<and> ''target'' \<in> tags_after_dns (heap ex_state_orphan 5) ex_dns_result)
        \<and> (\<forall>i<2. \<not> stopping_reads ex_env_stalling (clock ex_state_orphan + i))
        \<and> stopping_reads ex_env_stalling (clock ex_state_orphan + 2)
        \<and> ((2::nat) = 0 \<or> (\<not> resolved (heap ex_state_orphan 5)
                      \<and> \<not> dns_sets_resolved (resolve_event ex_env_stalling (heap ex_state_orphan 5))
                      \<and> source (heap ex_state_orphan 5) = Some 0 \<and> \<not> resolved (heap ex_state_orphan 0)))"
    by (simp add: whitelisted_verdict_def ex_env_stalling_def ex_env_silent_dns_def ex_env_def
          ex_dns_result_def ex_state_orphan_def ex_state_def ex_heap_def ex_dns_event_def ex_event_def)
  have v3: "clock ex_state_orphan + 2 + 1 = 3" "scope_distance (heap ex_state_orphan 5) = 3"
    by (simp_all add: ex_state_orphan_def ex_state_def ex_dns_event_def)
  have c3: "\<exists>s'. emit_event_body ex_env_stalling 5 no_opts ex_state_orphan
               = Some (Some ScanCancelledError, False, s')
        \<and> clock s' = 3 \<and> scope_distance (heap s' 5) = 3"
    using emit_event_body_scope [OF n3 k3 o3, where opts = no_opts and parent = 0 and k = 2,
        THEN conjunct2, THEN conjunct2, THEN conjunct1] h3 unfolding v3 by blast
  have k4: "\<not> skips_dns ex_env_silent_dns (heap ex_state_orphan 5)"
    and o4: "dns_outcome (resolve_event ex_env_silent_dns (heap ex_state_orphan 5)) = Inr ex_dns_result"
    by (simp_all add: ex_state_orphan_def ex_state_def ex_env_silent_dns_def ex_env_def skips_dns_def)
  have h4: "\<not> (whitelisted_verdict ex_env_silent_dns (heap ex_state_orphan 5) ex_dns_result
              \<and> ''target'' \<in> tags_after_dns (heap ex_state_orphan 5) ex_dns_result)
        \<and> \<not> resolved (heap ex_state_orphan 5)
        \<and> \<not> dns_sets_resolved (resolve_event ex_env_silent_dns (heap ex_state_orphan 5))
        \<and> source (heap ex_state_orphan 5) = Some 0 \<and> \<not> resolved (heap ex_state_orphan 0)
        \<and> (\<forall>i. \<not> stopping_reads ex_env_silent_dns (clock ex_state_orphan + i))"
    by (simp add: whitelisted_verdict_def ex_env_silent_dns_def ex_env_def
          ex_dns_result_def ex_state_orphan_def ex_state_def ex_heap_def ex_dns_event_def ex_event_def)
  have c4: "emit_event_body ex_env_silent_dns 5 no_opts ex_state_orphan = None"
    using emit_event_body_scope [OF n3 k4 o4, where opts = no_opts and parent = 0,
        THEN conjunct2, THEN conjunct2, THEN conjunct2, THEN conjunct1] h4 by blast
  have n5: "5 < next_ref ex_state_hostless" and k5: "\<not> skips_dns ex_env (heap ex_state_hostless 5)"
    and o5: "dns_outcome (resolve_event ex_env (heap ex_state_hostless 5)) = Inr ex_dns_result"
    by (simp_all add: ex_state_hostless_def ex_state_def ex_env_def skips_dns_def)
  have h5: "\<not> (whitelisted_verdict ex_env (heap ex_state_hostless 5) ex_dns_result
              \<and> ''target'' \<in> tags_after_dns (heap ex_state_hostless 5) ex_dns_result)
        \<and> source (heap ex_state_hostless 5) = Some 0"
    by (simp add: whitelisted_verdict_def ex_env_def ex_dns_result_def ex_state_hostless_def ex_state_def
          ex_dns_event_def ex_event_def)
  have v5: "(if host (heap ex_state_hostless 5) = None
                \<or> (whitelisted_verdict ex_env (heap ex_state_hostless 5) ex_dns_result
                    \<and> \<not> fst (is_duplicate_event (py_hash ex_env) ex_state_hostless 5 False))
             then 0 else scope_distance (heap ex_state_hostless 0) + 1) = 0"
    by (simp add: ex_state_hostless_def ex_state_def)
  have "\<exists>s'. emit_event_body ex_env 5 no_opts ex_state_hostless = Some (None, True, s')"
    by (simp add: run_defs ex_defs ex_state_hostless_def)
  then obtain em5 s5 where r5: "emit_event_body ex_env 5 no_opts ex_state_hostless = Some (None, em5, s5)"
    by blast
  have "scope_distance (heap s5 5) = 0"
    using emit_event_body_scope [OF n5 k5 o5, where opts = no_opts and parent = 0,
        THEN conjunct2, THEN conjunct2, THEN conjunct2, THEN conjunct2, rule_format, OF h5 r5]
    unfolding v5 .
  then have c5: "\<exists>em s'. emit_event_body ex_env 5 no_opts ex_state_hostless = Some (None, em, s')
        \<and> scope_distance (heap s' 5) = 0"
    using r5 by blast
  show ?thesis using c1 c2 c3 c4 c5 by blast
qed

























end
